theory Spec2Isabelle
  imports Complex_Main "HOL-Library.Sublist" "HOL-Library.Monad_Syntax"
begin

section \<open>Python string operations used by the sales coach\<close>

text \<open>
  A Python \<open>str\<close> is modelled as a \<open>string\<close>, the list of its code points, for the
  strings whose code points lie below 256; \<open>len\<close> is \<open>length\<close>. On these code points
  \<open>isspace\<close> and \<open>lower_char\<close> are Python's \<open>str.isspace\<close> and \<open>str.lower\<close>. Python's
  \<open>str.upper\<close> turns the sharp s (223) into two letters, so \<open>upper_chars\<close> gives a string;
  it is Python's result except for the micro sign (181) and the y with diaeresis (255),
  whose capitals (924 and 376) lie above 255: these two are kept as they are. Like their
  capitals they are no ASCII characters, so a comparison of an upper-cased string with an
  ASCII text comes out as in the program.
\<close>

definition isspace :: "char \<Rightarrow> bool" where
  "isspace c = (let n = (of_char c :: nat) in
     (9 \<le> n \<and> n \<le> 13) \<or> (28 \<le> n \<and> n \<le> 32) \<or> n = 133 \<or> n = 160)"

definition upper_chars :: "char \<Rightarrow> string" where
  "upper_chars c = (let n = (of_char c :: nat) in
     if 97 \<le> n \<and> n \<le> 122 then [char_of (n - 32)]
     else if 224 \<le> n \<and> n \<le> 254 \<and> n \<noteq> 247 then [char_of (n - 32)]
     else if n = 223 then ''SS''
     else [c])"

definition lower_char :: "char \<Rightarrow> char" where
  "lower_char c = (let n = (of_char c :: nat) in
     if 65 \<le> n \<and> n \<le> 90 then char_of (n + 32)
     else if 192 \<le> n \<and> n \<le> 222 \<and> n \<noteq> 215 then char_of (n + 32)
     else c)"

definition str_upper :: "string \<Rightarrow> string" where
  "str_upper s = concat (map upper_chars s)"

definition str_lower :: "string \<Rightarrow> string" where
  "str_lower s = map lower_char s"

text \<open>\<open>s.strip()\<close> and \<open>s.strip(chars)\<close>: drop the leading and the trailing characters
  that are blank, respectively that occur in \<open>chars\<close>.\<close>

definition strip_by :: "(char \<Rightarrow> bool) \<Rightarrow> string \<Rightarrow> string" where
  "strip_by P s = rev (dropWhile P (rev (dropWhile P s)))"

definition str_strip :: "string \<Rightarrow> string" where
  "str_strip s = strip_by isspace s"

definition strip_chars :: "string \<Rightarrow> string \<Rightarrow> string" where
  "strip_chars chars s = strip_by (\<lambda>c. c \<in> set chars) s"

definition startswith :: "string \<Rightarrow> string \<Rightarrow> bool" where
  "startswith s p = (take (length p) s = p)"

definition endswith :: "string \<Rightarrow> string \<Rightarrow> bool" where
  "endswith s p = (length p \<le> length s \<and> drop (length s - length p) s = p)"

text \<open>\<open>s.split(sep)\<close> for a separator of one character: the pieces between the
  separators, empty pieces included, so the result is never the empty list. The second
  argument of \<open>split_from\<close> is the piece read so far.\<close>

fun split_from :: "char \<Rightarrow> string \<Rightarrow> string \<Rightarrow> string list" where
  "split_from sep w [] = [w]"
| "split_from sep w (c # cs) =
     (if c = sep then w # split_from sep [] cs else split_from sep (w @ [c]) cs)"

definition split_on :: "char \<Rightarrow> string \<Rightarrow> string list" where
  "split_on sep s = split_from sep [] s"

text \<open>\<open>s.split()\<close>: the maximal runs of non-blank characters. The first argument is the
  word read so far.\<close>

fun split_ws_from :: "string \<Rightarrow> string \<Rightarrow> string list" where
  "split_ws_from w [] = (if w = [] then [] else [w])"
| "split_ws_from w (c # cs) =
     (if isspace c then (if w = [] then split_ws_from [] cs else w # split_ws_from [] cs)
      else split_ws_from (w @ [c]) cs)"

definition split_ws :: "string \<Rightarrow> string list" where
  "split_ws s = split_ws_from [] s"

text \<open>\<open>sep.join(xs)\<close>.\<close>

fun str_join :: "string \<Rightarrow> string list \<Rightarrow> string" where
  "str_join sep [] = []"
| "str_join sep [x] = x"
| "str_join sep (x # y # ys) = x @ sep @ str_join sep (y # ys)"

definition newline :: string where
  "newline = [CHR 0x0A]"

section \<open>Conversation history\<close>

text \<open>
  An entry of \<open>conversation_history\<close> is a dictionary with the keys \<open>speaker\<close> and
  \<open>text\<close>; the only speakers the handler ever writes are \<open>presenter\<close> and \<open>customer\<close>.
\<close>

datatype speaker = Presenter | Customer

fun speaker_name :: "speaker \<Rightarrow> string" where
  "speaker_name Presenter = ''presenter''"
| "speaker_name Customer = ''customer''"

record turn =
  speaker :: speaker
  turn_text :: string

text \<open>The line \<open>f"{h['speaker'].upper()}: {h['text']}"\<close>.\<close>

definition render_turn :: "turn \<Rightarrow> string" where
  "render_turn h = str_upper (speaker_name (speaker h)) @ '': '' @ turn_text h"

text \<open>\<open>conversation_history[-4:]\<close>: the last four entries, or all of them when there are
  fewer.\<close>

definition last4 :: "'a list \<Rightarrow> 'a list" where
  "last4 xs = drop (length xs - 4) xs"

definition recent_context :: "turn list \<Rightarrow> string" where
  "recent_context conversation_history = str_join newline (map render_turn (last4 conversation_history))"

definition full_transcript :: "turn list \<Rightarrow> string" where
  "full_transcript conversation_history = str_join newline (map render_turn conversation_history)"

section \<open>The language model as an oracle\<close>

text \<open>
  A chat completion request carries the system message, the user message, the sampling
  temperature, the token limit and whether a JSON object is requested. The model's answer
  is not determined by the request, so the oracle also takes the number of calls made so
  far. Every way in which the call, or reading \<open>choices[0].message.content\<close> as a
  string, can raise is an \<open>Inl\<close>.
\<close>

datatype error =
    OracleFailure
  | InvalidJSONResponse
  | ValidationError
  | TypeError

record oracle_request =
  system_instruction :: string
  user_instruction :: string
  temperature :: rat
  max_tokens :: nat
  json_object :: bool

type_synonym llm_oracle = "nat \<Rightarrow> oracle_request \<Rightarrow> error + string"

definition call_oracle ::
  "llm_oracle \<Rightarrow> oracle_request \<Rightarrow> oracle_request list \<Rightarrow> (error + string) \<times> oracle_request list" where
  "call_oracle orc req calls = (orc (length calls) req, calls @ [req])"

section \<open>Deciding whether the customer avatar answers\<close>

definition question_phrases :: "string list" where
  "question_phrases =
     [''what do you think'', ''any questions'', ''does that make sense'',
      ''do you have any'', ''tell me what you'']"

definition sentence_starts :: "string \<Rightarrow> string list" where
  "sentence_starts presenter_text =
     map (\<lambda>s. take 20 (str_lower (str_strip s)))
       (filter (\<lambda>s. str_strip s \<noteq> []) (split_on (CHR ''.'') presenter_text))"

definition is_question :: "string \<Rightarrow> bool" where
  "is_question presenter_text =
     ((endswith (str_strip presenter_text) ''?'' \<or> endswith (str_strip presenter_text) ''??'')
      \<or> list_ex (\<lambda>start. list_ex (\<lambda>q. startswith start q) question_phrases)
           (sentence_starts presenter_text))"

definition response_prompt :: "string \<Rightarrow> string \<Rightarrow> string" where
  \<open>response_prompt context presenter_text = str_join newline
     [''You are a customer in a sales meeting. The salesperson just spoke.'',
      '''',
      ''Recent conversation:'',
      (if context \<noteq> [] then context else ''(Just started)''),
      '''',
      ''Salesperson: "'' @ presenter_text @ ''"'',
      '''',
      ''HOW TO RESPOND:'',
      '''',
      ''If they asked a DIRECT QUESTION (ends with ? and clearly directed at you):'',
      ''- Answer naturally in 10-25 words'',
      '''',
      ''If they made a STATEMENT or are still presenting:'',
      ''- STAY SILENT - let them finish their pitch'',
      ''- Salespeople need time to explain their product'',
      ''- Only respond if ALL of these are true:'',
      ''  * They've clearly finished a major point (not just pausing mid-thought)'',
      ''  * You have a critical clarification question'',
      ''  * It feels natural for a customer to interject'',
      '''',
      ''Be a PATIENT listener - real customers don't interrupt every 10 seconds.'',
      ''Most pauses are just the salesperson gathering their thoughts.'',
      '''',
      ''Response (or "SILENT" to stay quiet):'']\<close>

definition response_request :: "string \<Rightarrow> turn list \<Rightarrow> oracle_request" where
  "response_request presenter_text conversation_history =
     \<lparr> system_instruction =
         ''You are an engaged customer in a sales conversation. Respond naturally to questions and engage in dialogue.'',
       user_instruction = response_prompt (recent_context conversation_history) presenter_text,
       temperature = 8 / 10,
       max_tokens = 60,
       json_object = False \<rparr>"

definition quote_chars :: string where
  \<open>quote_chars = ''"'' @ [CHR 0x27]\<close>

definition fallback_response :: string where
  "fallback_response = ''That's a good question. Could you elaborate a bit more?''"

text \<open>The policy applied to the oracle's reply, after \<open>content.strip().strip('"\'')\<close>.\<close>

definition decide_response :: "bool \<Rightarrow> string \<Rightarrow> string" where
  "decide_response is_q content =
     (let avatar_response = strip_chars quote_chars (str_strip content) in
      if is_q then
        (if avatar_response = [] \<or> str_upper avatar_response \<in> set [''SILENT'', ''SILENCE'']
         then fallback_response else avatar_response)
      else if str_upper avatar_response \<in> set [''SILENT'', ''SILENCE'', ''NO RESPONSE''] then []
      else if avatar_response = [] \<or> length (str_strip avatar_response) < 2 then []
      else avatar_response)"

text \<open>The body of the \<open>try\<close> block of \<open>generate_natural_response\<close>: one call of the
  oracle, whose failure leaves the block.\<close>

definition natural_response_body ::
  "llm_oracle \<Rightarrow> string \<Rightarrow> turn list \<Rightarrow> oracle_request list \<Rightarrow> (error + string) \<times> oracle_request list" where
  "natural_response_body orc presenter_text conversation_history calls =
     (let is_q = is_question presenter_text;
          (response, calls') = call_oracle orc (response_request presenter_text conversation_history) calls
      in case response of
           Inl e \<Rightarrow> (Inl e, calls')
         | Inr content \<Rightarrow> (Inr (decide_response is_q content), calls'))"

text \<open>\<open>generate_natural_response\<close>: the empty string means that the avatar stays silent;
  the handler \<open>except Exception\<close> returns it too.\<close>

definition generate_natural_response ::
  "llm_oracle \<Rightarrow> string \<Rightarrow> turn list \<Rightarrow> oracle_request list \<Rightarrow> string \<times> oracle_request list" where
  "generate_natural_response orc presenter_text conversation_history calls =
     (case natural_response_body orc presenter_text conversation_history calls of
        (Inl e, calls') \<Rightarrow> ([], calls')
      | (Inr avatar_response, calls') \<Rightarrow> (avatar_response, calls'))"

section \<open>The coaching report model\<close>

text \<open>
  The values that \<open>json.loads\<close> produces and that a model receives as keyword arguments.
  A \<open>float\<close> is a rational number, an infinity or not-a-number; a dictionary is a list of
  keys with their values, looked up with \<open>map_of\<close>.
\<close>

datatype pyfloat = Finite rat | PosInf | NegInf | NaN

datatype pyval =
    PNone
  | PBool bool
  | PInt int
  | PFloat pyfloat
  | PStr string
  | PList "pyval list"
  | PDict "(string \<times> pyval) list"

text \<open>
  What the program takes from its libraries and its configuration: the JSON parser
  (\<open>None\<close> for \<open>JSONDecodeError\<close>), the reading of a string as a \<open>float\<close> by the
  validation library, and the system prompt that is built from the configured rules.
\<close>

record environment =
  json_loads :: "string \<Rightarrow> pyval option"
  float_of_str :: "string \<Rightarrow> pyfloat option"
  system_prompt :: string

record criteria_scores =
  value_proposition :: pyfloat
  objection_handling :: pyfloat
  active_listening :: pyfloat
  question_quality :: pyfloat
  call_to_action :: pyfloat
  engagement :: pyfloat
  rule_compliance :: pyfloat

record improvement_item =
  area :: string
  current_state :: string
  recommendation :: string
  example :: "string option"

record rule_violation =
  rule_category :: string
  rule_name :: string
  severity :: string
  description :: string
  violation_example :: "string option"
  suggestion :: string

record sales_coaching_report =
  overall_score :: pyfloat
  performance_level :: string
  criteria_scores :: criteria_scores
  strengths :: "string list"
  improvements :: "improvement_item list"
  rule_violations :: "rule_violation list"
  summary :: string
  next_steps :: "string list"

text \<open>Field validation. A \<open>float\<close> field takes a float, an integer, a boolean or a
  string that reads as a float; a \<open>str\<close> field takes a string only. The field
  \<open>example\<close> of a rule violation is \<open>violation_example\<close> here, its key is still
  \<open>example\<close>.\<close>

fun as_float :: "environment \<Rightarrow> pyval \<Rightarrow> pyfloat option" where
  "as_float env (PFloat f) = Some f"
| "as_float env (PInt n) = Some (Finite (of_int n))"
| "as_float env (PBool b) = Some (Finite (if b then 1 else 0))"
| "as_float env (PStr s) = float_of_str env s"
| "as_float env _ = None"

fun ge_1 :: "pyfloat \<Rightarrow> bool" where
  "ge_1 (Finite q) = (1 \<le> q)"
| "ge_1 PosInf = True"
| "ge_1 NegInf = False"
| "ge_1 NaN = False"

fun le_10 :: "pyfloat \<Rightarrow> bool" where
  "le_10 (Finite q) = (q \<le> 10)"
| "le_10 PosInf = False"
| "le_10 NegInf = True"
| "le_10 NaN = False"

definition as_score :: "environment \<Rightarrow> pyval \<Rightarrow> pyfloat option" where
  "as_score env v =
     (case as_float env v of
        None \<Rightarrow> None
      | Some f \<Rightarrow> if ge_1 f \<and> le_10 f then Some f else None)"

fun as_str :: "pyval \<Rightarrow> string option" where
  "as_str (PStr s) = Some s"
| "as_str _ = None"

fun as_optional_str :: "pyval \<Rightarrow> string option option" where
  "as_optional_str PNone = Some None"
| "as_optional_str (PStr s) = Some (Some s)"
| "as_optional_str _ = None"

fun as_list :: "(pyval \<Rightarrow> 'a option) \<Rightarrow> pyval \<Rightarrow> 'a list option" where
  "as_list f (PList vs) = those (map f vs)"
| "as_list f _ = None"

text \<open>A field declared with \<open>Field(...)\<close> is required; a field with a default takes the
  default when its key is absent. Keys that the model does not declare are ignored.\<close>

definition required :: "(pyval \<Rightarrow> 'a option) \<Rightarrow> (string \<times> pyval) list \<Rightarrow> string \<Rightarrow> 'a option" where
  "required f kwargs k = (case map_of kwargs k of None \<Rightarrow> None | Some v \<Rightarrow> f v)"

definition with_default :: "'a \<Rightarrow> (pyval \<Rightarrow> 'a option) \<Rightarrow> (string \<times> pyval) list \<Rightarrow> string \<Rightarrow> 'a option" where
  "with_default d f kwargs k = (case map_of kwargs k of None \<Rightarrow> Some d | Some v \<Rightarrow> f v)"

fun as_model :: "((string \<times> pyval) list \<Rightarrow> 'a option) \<Rightarrow> pyval \<Rightarrow> 'a option" where
  "as_model f (PDict kwargs) = f kwargs"
| "as_model f _ = None"

definition CriteriaScores :: "environment \<Rightarrow> (string \<times> pyval) list \<Rightarrow> criteria_scores option" where
  "CriteriaScores env kwargs = do {
     vp \<leftarrow> required (as_score env) kwargs ''value_proposition'';
     oh \<leftarrow> required (as_score env) kwargs ''objection_handling'';
     al \<leftarrow> required (as_score env) kwargs ''active_listening'';
     qq \<leftarrow> required (as_score env) kwargs ''question_quality'';
     ca \<leftarrow> required (as_score env) kwargs ''call_to_action'';
     en \<leftarrow> required (as_score env) kwargs ''engagement'';
     rc \<leftarrow> required (as_score env) kwargs ''rule_compliance'';
     Some \<lparr> value_proposition = vp, objection_handling = oh, active_listening = al,
            question_quality = qq, call_to_action = ca, engagement = en,
            rule_compliance = rc \<rparr>
   }"

definition ImprovementItem :: "(string \<times> pyval) list \<Rightarrow> improvement_item option" where
  "ImprovementItem kwargs = do {
     a \<leftarrow> required as_str kwargs ''area'';
     c \<leftarrow> required as_str kwargs ''current_state'';
     r \<leftarrow> required as_str kwargs ''recommendation'';
     e \<leftarrow> with_default None as_optional_str kwargs ''example'';
     Some \<lparr> area = a, current_state = c, recommendation = r, example = e \<rparr>
   }"

definition RuleViolation :: "(string \<times> pyval) list \<Rightarrow> rule_violation option" where
  "RuleViolation kwargs = do {
     c \<leftarrow> required as_str kwargs ''rule_category'';
     n \<leftarrow> required as_str kwargs ''rule_name'';
     s \<leftarrow> required as_str kwargs ''severity'';
     d \<leftarrow> required as_str kwargs ''description'';
     e \<leftarrow> with_default None as_optional_str kwargs ''example'';
     g \<leftarrow> required as_str kwargs ''suggestion'';
     Some \<lparr> rule_category = c, rule_name = n, severity = s, description = d,
            violation_example = e, suggestion = g \<rparr>
   }"

definition validate_report :: "environment \<Rightarrow> (string \<times> pyval) list \<Rightarrow> sales_coaching_report option" where
  "validate_report env kwargs = do {
     os \<leftarrow> required (as_score env) kwargs ''overall_score'';
     pl \<leftarrow> required as_str kwargs ''performance_level'';
     cs \<leftarrow> required (as_model (CriteriaScores env)) kwargs ''criteria_scores'';
     st \<leftarrow> required (as_list as_str) kwargs ''strengths'';
     im \<leftarrow> required (as_list (as_model ImprovementItem)) kwargs ''improvements'';
     rv \<leftarrow> with_default [] (as_list (as_model RuleViolation)) kwargs ''rule_violations'';
     su \<leftarrow> required as_str kwargs ''summary'';
     ns \<leftarrow> required (as_list as_str) kwargs ''next_steps'';
     Some \<lparr> overall_score = os, performance_level = pl, criteria_scores = cs,
            strengths = st, improvements = im, rule_violations = rv, summary = su,
            next_steps = ns \<rparr>
   }"

text \<open>\<open>SalesCoachingReport(**kwargs)\<close>: the report, or the library's validation error.\<close>

definition SalesCoachingReport :: "environment \<Rightarrow> (string \<times> pyval) list \<Rightarrow> error + sales_coaching_report" where
  "SalesCoachingReport env kwargs =
     (case validate_report env kwargs of None \<Rightarrow> Inl ValidationError | Some report \<Rightarrow> Inr report)"

text \<open>The names of the model's fields, and of those without a default.\<close>

definition report_fields :: "string list" where
  "report_fields =
     [''overall_score'', ''performance_level'', ''criteria_scores'', ''strengths'',
      ''improvements'', ''rule_violations'', ''summary'', ''next_steps'']"

definition required_fields :: "string list" where
  "required_fields =
     [''overall_score'', ''performance_level'', ''criteria_scores'', ''strengths'',
      ''improvements'', ''summary'', ''next_steps'']"

section \<open>Analysing a presentation\<close>

definition analysis_request :: "environment \<Rightarrow> string \<Rightarrow> oracle_request" where
  "analysis_request env transcript =
     \<lparr> system_instruction = system_prompt env,
       user_instruction = ''Analyze this sales presentation transcript:'' @ newline @ newline @ transcript,
       temperature = 7 / 10,
       max_tokens = 2000,
       json_object = True \<rparr>"

text \<open>\<open>analyze_presentation\<close>: a \<open>JSONDecodeError\<close> is raised again as a \<open>ValueError\<close>
  (\<open>InvalidJSONResponse\<close>); every other exception is logged and raised again as it is.
  Unpacking a parsed value that is not a dictionary with \<open>**\<close> is a \<open>TypeError\<close>.\<close>

definition analyze_presentation ::
  "environment \<Rightarrow> llm_oracle \<Rightarrow> string \<Rightarrow> oracle_request list
     \<Rightarrow> (error + sales_coaching_report) \<times> oracle_request list" where
  "analyze_presentation env orc transcript calls =
     (let (response, calls') = call_oracle orc (analysis_request env transcript) calls
      in case response of
           Inl e \<Rightarrow> (Inl e, calls')
         | Inr result_json \<Rightarrow>
             (case json_loads env result_json of
                None \<Rightarrow> (Inl InvalidJSONResponse, calls')
              | Some (PDict result_data) \<Rightarrow> (SalesCoachingReport env result_data, calls')
              | Some _ \<Rightarrow> (Inl TypeError, calls')))"

section \<open>The interactive session\<close>

text \<open>
  The messages of the client that the handler distinguishes by their \<open>type\<close>, with the
  fields it reads from them; a pause carries \<open>recent_text\<close> or lacks the key, and a
  message of any other type is skipped. \<open>Unreadable\<close> is a message on which reading a
  field raises: one without \<open>type\<close>, a transcript update without \<open>text\<close>, a pause
  whose \<open>recent_text\<close> is not a string. The state of the handler's loop is the history
  and the greeting flag; the messages sent to the client and the requests made to the
  oracle are recorded with it. Sending is taken to succeed.
\<close>

datatype client_message =
    StartSession
  | TranscriptUpdate string
  | PauseDetected "string option"
  | EndPresentation
  | OtherMessage string
  | Unreadable

datatype server_message =
    AvatarSpeak string
  | CoachingReport sales_coaching_report

record session =
  conversation_history :: "turn list"
  greeting_sent :: bool
  sent :: "server_message list"
  oracle_calls :: "oracle_request list"

text \<open>After a message the loop goes on, is left by \<open>break\<close>, or is left by an exception,
  on which the handler closes the socket.\<close>

datatype control = Continue | Break | Closed

definition greeting :: string where
  "greeting = ''Hi! I'm interested in learning about your product. Go ahead.''"

definition too_short :: "string \<Rightarrow> bool" where
  "too_short recent_text = (recent_text = [] \<or> length (split_ws recent_text) < 5)"

definition worth_saying :: "string \<Rightarrow> bool" where
  "worth_saying response = (response \<noteq> [] \<and> str_strip response \<noteq> [] \<and> length response > 2)"

text \<open>The keyword arguments of the report that is built when there is no conversation.\<close>

definition minimal_report_kwargs :: "(string \<times> pyval) list" where
  "minimal_report_kwargs =
     [(''overall_score'', PFloat (Finite 0)),
      (''scores'', PDict []),
      (''strengths'', PList []),
      (''areas_for_improvement'', PList []),
      (''specific_recommendations'', PList []),
      (''next_steps'', PList [])]"

text \<open>\<open>message.get("recent_text", "").strip()\<close>.\<close>

definition recent_text_of :: "string option \<Rightarrow> string" where
  "recent_text_of recent = str_strip (case recent of None \<Rightarrow> [] | Some t \<Rightarrow> t)"

definition on_pause :: "llm_oracle \<Rightarrow> string option \<Rightarrow> session \<Rightarrow> control \<times> session" where
  "on_pause orc recent s =
     (let recent_text = recent_text_of recent in
      if too_short recent_text then (Continue, s)
      else if \<not> greeting_sent s then (Continue, s)
      else
        (let (response, calls') =
               generate_natural_response orc recent_text (conversation_history s) (oracle_calls s)
         in if worth_saying response then
              (Continue, s\<lparr> oracle_calls := calls',
                             sent := sent s @ [AvatarSpeak response],
                             conversation_history := conversation_history s @
                               [\<lparr> speaker = Presenter, turn_text = recent_text \<rparr>,
                                \<lparr> speaker = Customer, turn_text = response \<rparr>] \<rparr>)
            else
              (Continue, s\<lparr> oracle_calls := calls',
                             conversation_history := conversation_history s @
                               [\<lparr> speaker = Presenter, turn_text = recent_text \<rparr>] \<rparr>)))"

definition on_end :: "environment \<Rightarrow> llm_oracle \<Rightarrow> session \<Rightarrow> control \<times> session" where
  "on_end env orc s =
     (let transcript = full_transcript (conversation_history s) in
      if transcript \<noteq> [] then
        (case analyze_presentation env orc transcript (oracle_calls s) of
           (Inl e, calls') \<Rightarrow> (Closed, s\<lparr> oracle_calls := calls' \<rparr>)
         | (Inr report, calls') \<Rightarrow>
             (Break, s\<lparr> oracle_calls := calls', sent := sent s @ [CoachingReport report] \<rparr>))
      else
        (case SalesCoachingReport env minimal_report_kwargs of
           Inl e \<Rightarrow> (Closed, s)
         | Inr report \<Rightarrow> (Break, s\<lparr> sent := sent s @ [CoachingReport report] \<rparr>)))"

fun handle_message :: "environment \<Rightarrow> llm_oracle \<Rightarrow> client_message \<Rightarrow> session \<Rightarrow> control \<times> session" where
  "handle_message env orc StartSession s =
     (Continue, s\<lparr> sent := sent s @ [AvatarSpeak greeting], greeting_sent := True \<rparr>)"
| "handle_message env orc (TranscriptUpdate presenter_text) s = (Continue, s)"
| "handle_message env orc (PauseDetected recent) s = on_pause orc recent s"
| "handle_message env orc EndPresentation s = on_end env orc s"
| "handle_message env orc (OtherMessage ty) s = (Continue, s)"
| "handle_message env orc Unreadable s = (Closed, s)"

text \<open>The loop over the messages received, from a state of the session.\<close>

fun run :: "environment \<Rightarrow> llm_oracle \<Rightarrow> client_message list \<Rightarrow> session \<Rightarrow> control \<times> session" where
  "run env orc [] s = (Continue, s)"
| "run env orc (m # ms) s =
     (case handle_message env orc m s of
        (Continue, s') \<Rightarrow> run env orc ms s'
      | (ctl, s') \<Rightarrow> (ctl, s'))"

definition initial_session :: session where
  "initial_session = \<lparr> conversation_history = [], greeting_sent = False, sent = [], oracle_calls = [] \<rparr>"

section \<open>The notions of the specification\<close>

text \<open>
  The words of the specification, written without the string operations of the program,
  for comparison with them. A text \<open>t\<close> is \<open>s\<close> trimmed of the characters \<open>P\<close> when
  \<open>s\<close> is \<open>t\<close> between two runs of such characters and \<open>t\<close> neither begins nor ends
  with one.
\<close>

definition trimmed_of :: "(char \<Rightarrow> bool) \<Rightarrow> string \<Rightarrow> string \<Rightarrow> bool" where
  "trimmed_of P s t \<longleftrightarrow>
     (\<exists>a\<in>set (prefixes s). \<exists>b\<in>set (suffixes s).
        s = a @ t @ b \<and> list_all P a \<and> list_all P b
        \<and> (t = [] \<or> (\<not> P (hd t) \<and> \<not> P (last t))))"

definition is_quote :: "char \<Rightarrow> bool" where
  "is_quote c \<longleftrightarrow> c = CHR 0x22 \<or> c = CHR 0x27"

text \<open>Two texts are equal ignoring case when they have the same length and agree at
  every position up to the case of the letters \<open>a\<close> to \<open>z\<close>; the texts compared with are
  ASCII. \<open>lowercase\<close> turns the capitals \<open>A\<close> to \<open>Z\<close> into small letters.\<close>

definition ascii_lowercase :: string where
  "ascii_lowercase = ''abcdefghijklmnopqrstuvwxyz''"

definition ascii_uppercase :: string where
  "ascii_uppercase = ''ABCDEFGHIJKLMNOPQRSTUVWXYZ''"

definition same_letter :: "char \<Rightarrow> char \<Rightarrow> bool" where
  "same_letter a b \<longleftrightarrow>
     a = b \<or> (a, b) \<in> set (zip ascii_lowercase ascii_uppercase)
           \<or> (b, a) \<in> set (zip ascii_lowercase ascii_uppercase)"

definition equal_ignoring_case :: "string \<Rightarrow> string \<Rightarrow> bool" where
  "equal_ignoring_case r t = list_all2 same_letter r t"

definition lowercase :: "string \<Rightarrow> string" where
  "lowercase s =
     map (\<lambda>c. case map_of (zip ascii_uppercase ascii_lowercase) c of Some l \<Rightarrow> l | None \<Rightarrow> c) s"

text \<open>A sentence of an utterance is a stretch without a period that reaches, on either
  side, to a period or to the end of the utterance.\<close>

definition is_sentence_of :: "string \<Rightarrow> string \<Rightarrow> bool" where
  "is_sentence_of utterance x \<longleftrightarrow>
     (\<exists>pre\<in>set (prefixes utterance). \<exists>post\<in>set (suffixes utterance).
        utterance = pre @ x @ post \<and> CHR ''.'' \<notin> set x
        \<and> (pre = [] \<or> last pre = CHR ''.'') \<and> (post = [] \<or> hd post = CHR ''.''))"

text \<open>The words of a text are counted where they start: at a character that is not
  blank and is the first or follows a blank.\<close>

fun word_starts :: "char \<Rightarrow> string \<Rightarrow> nat" where
  "word_starts previous [] = 0"
| "word_starts previous (c # cs) =
     (if isspace previous \<and> \<not> isspace c then 1 else 0) + word_starts c cs"

definition word_count :: "string \<Rightarrow> nat" where
  "word_count s = word_starts (CHR '' '') s"

text \<open>The gate of the specification on a pause: a recent text that is missing, blank or
  of fewer than five words is too short.\<close>

definition pause_too_short :: "string option \<Rightarrow> bool" where
  "pause_too_short recent \<longleftrightarrow>
     (case recent of None \<Rightarrow> True
      | Some recent_text \<Rightarrow> list_all isspace recent_text \<or> word_count recent_text < 5)"

text \<open>
  The specification's classifier: an utterance is a direct question if, trimmed, it ends
  with one or more question marks, or if it has a sentence that, trimmed, is not empty
  and whose first twenty characters, in lower case, start with one of five phrases.
\<close>

definition trailing_question_marks :: "string \<Rightarrow> nat" where
  "trailing_question_marks s = length (takeWhile (\<lambda>c. c = CHR ''?'') (rev s))"

definition spec_phrases :: "string list" where
  "spec_phrases =
     [''what do you think'', ''any questions'', ''does that make sense'',
      ''do you have any'', ''tell me what you'']"

definition classify_spec :: "string \<Rightarrow> bool" where
  "classify_spec utterance \<longleftrightarrow>
     (\<exists>t\<in>set (sublists utterance).
        trimmed_of isspace utterance t \<and> 1 \<le> trailing_question_marks t)
     \<or> (\<exists>sentence\<in>set (sublists utterance). is_sentence_of utterance sentence
          \<and> (\<exists>t\<in>set (sublists sentence). trimmed_of isspace sentence t \<and> t \<noteq> []
               \<and> (\<exists>phrase\<in>set spec_phrases. prefix phrase (lowercase (take 20 t)))))"

section \<open>Properties of the decision procedure\<close>

lemma natural_response_reply:
  assumes "fst (call_oracle orc (response_request presenter_text history) calls) = Inr reply"
  shows "generate_natural_response orc presenter_text history calls =
           (decide_response (is_question presenter_text) reply,
            calls @ [response_request presenter_text history])"
  using assms
  by (simp add: generate_natural_response_def natural_response_body_def call_oracle_def)

lemma natural_response_failure:
  assumes "fst (call_oracle orc (response_request presenter_text history) calls) = Inl e"
  shows "generate_natural_response orc presenter_text history calls =
           ([], calls @ [response_request presenter_text history])"
  using assms
  by (simp add: generate_natural_response_def natural_response_body_def call_oracle_def)

section \<open>Properties of the session handler\<close>

lemma strip_by_Nil_iff: "strip_by P s = [] \<longleftrightarrow> (\<forall>c\<in>set s. P c)"
proof (cases "dropWhile P s")
  case Nil
  then have "strip_by P s = []"
    by (simp add: strip_by_def del: dropWhile_eq_Nil_conv)
  moreover from Nil have "\<forall>c\<in>set s. P c"
    by (simp add: dropWhile_eq_Nil_conv)
  ultimately show ?thesis by simp
next
  case (Cons x xs)
  then have nx: "\<not> P x"
    by (metis hd_dropWhile list.sel(1) list.distinct(1))
  have "x \<in> set (rev (dropWhile P s))"
    using Cons by simp
  with nx have "dropWhile P (rev (dropWhile P s)) \<noteq> []"
    by (auto simp: dropWhile_eq_Nil_conv)
  then have "strip_by P s \<noteq> []"
    by (simp add: strip_by_def del: dropWhile_eq_Nil_conv)
  moreover from Cons have "\<not> (\<forall>c\<in>set s. P c)"
    by (metis dropWhile_eq_Nil_conv list.distinct(1))
  ultimately show ?thesis by simp
qed

lemma str_strip_Nil_iff: "str_strip s = [] \<longleftrightarrow> (\<forall>c\<in>set s. isspace c)"
  by (simp add: str_strip_def strip_by_Nil_iff)

lemma on_pause_rejected:
  assumes "too_short (recent_text_of recent) \<or> \<not> greeting_sent s"
  shows "on_pause orc recent s = (Continue, s)"
  using assms by (auto simp: on_pause_def Let_def)

lemma on_pause_failure:
  assumes "\<not> too_short (recent_text_of recent)" and "greeting_sent s"
    and "fst (call_oracle orc (response_request (recent_text_of recent) (conversation_history s))
               (oracle_calls s)) = Inl e"
  shows "on_pause orc recent s =
           (Continue, s\<lparr> oracle_calls := oracle_calls s @
                             [response_request (recent_text_of recent) (conversation_history s)],
                          conversation_history := conversation_history s @
                             [\<lparr> speaker = Presenter, turn_text = recent_text_of recent \<rparr>] \<rparr>)"
  using assms(1,2) natural_response_failure [OF assms(3)]
  by (simp add: on_pause_def Let_def worth_saying_def)

lemma on_pause_sent:
  "\<exists>new. sent (snd (on_pause orc recent s)) = sent s @ new
     \<and> (\<forall>m\<in>set new. \<exists>t. m = AvatarSpeak t \<and> worth_saying t)"
proof (cases "too_short (recent_text_of recent) \<or> \<not> greeting_sent s")
  case True
  then show ?thesis by (simp add: on_pause_rejected)
next
  case False
  obtain response calls' where g:
    "generate_natural_response orc (recent_text_of recent) (conversation_history s) (oracle_calls s)
       = (response, calls')"
    by (cases "generate_natural_response orc (recent_text_of recent) (conversation_history s) (oracle_calls s)")
  show ?thesis
  proof (cases "worth_saying response")
    case True
    with False g have "sent (snd (on_pause orc recent s)) = sent s @ [AvatarSpeak response]"
      by (simp add: on_pause_def Let_def)
    with True show ?thesis by auto
  next
    case w: False
    with False g have "sent (snd (on_pause orc recent s)) = sent s @ []"
      by (simp add: on_pause_def Let_def)
    then show ?thesis by (intro exI [of _ "[]"]) simp
  qed
qed

lemma run_append:
  "run env orc (ms1 @ ms2) s =
     (case run env orc ms1 s of (Continue, s') \<Rightarrow> run env orc ms2 s' | (ctl, s') \<Rightarrow> (ctl, s'))"
proof (induction ms1 arbitrary: s)
  case Nil
  then show ?case by simp
next
  case (Cons m ms1)
  obtain ctl s' where h: "handle_message env orc m s = (ctl, s')"
    by (cases "handle_message env orc m s")
  then show ?case
    using Cons.IH [of s'] by (cases ctl) simp_all
qed


text \<open>
  Claim C6. When the oracle call made by the decision procedure fails, the body of the
  procedure is left with the error, and the procedure returns the empty text of a silent
  decision all the same. The handler of a pause then goes on with the loop: it records
  the presenter's words and sends nothing.
\<close>

theorem oracle_failure_is_silence:
  assumes "fst (call_oracle orc (response_request presenter_text history) calls) = Inl e"
  shows "fst (natural_response_body orc presenter_text history calls) = Inl e
       \<and> generate_natural_response orc presenter_text history calls =
           ([], calls @ [response_request presenter_text history])
       \<and> (presenter_text = recent_text_of recent \<and> history = conversation_history s
            \<and> calls = oracle_calls s \<and> \<not> too_short presenter_text \<and> greeting_sent s
          \<longrightarrow> handle_message env orc (PauseDetected recent) s =
                (Continue, s\<lparr> oracle_calls := calls @ [response_request presenter_text history],
                               conversation_history := history @
                                 [\<lparr> speaker = Presenter, turn_text = presenter_text \<rparr>] \<rparr>))"
proof (intro conjI impI)
  show "fst (natural_response_body orc presenter_text history calls) = Inl e"
    using assms by (simp add: natural_response_body_def call_oracle_def)
  show "generate_natural_response orc presenter_text history calls =
          ([], calls @ [response_request presenter_text history])"
    by (rule natural_response_failure [OF assms])
next
  assume h: "presenter_text = recent_text_of recent \<and> history = conversation_history s
            \<and> calls = oracle_calls s \<and> \<not> too_short presenter_text \<and> greeting_sent s"
  then have p: "presenter_text = recent_text_of recent" and hi: "history = conversation_history s"
    and c: "calls = oracle_calls s" and t: "\<not> too_short (recent_text_of recent)"
    and g: "greeting_sent s"
    by blast+
  from assms have f: "fst (call_oracle orc (response_request (recent_text_of recent) (conversation_history s))
               (oracle_calls s)) = Inl e"
    unfolding p hi c .
  show "handle_message env orc (PauseDetected recent) s =
                (Continue, s\<lparr> oracle_calls := calls @ [response_request presenter_text history],
                               conversation_history := history @
                                 [\<lparr> speaker = Presenter, turn_text = presenter_text \<rparr>] \<rparr>)"
    unfolding p hi c using on_pause_failure [OF t g f] by simp
qed

theorem oracle_failure_is_silence_witness:
  "generate_natural_response (\<lambda>n req. Inl OracleFailure) ''What pricing tiers do you offer?'' [] []
     = ([], [response_request ''What pricing tiers do you offer?'' []])
   \<and> fst (handle_message \<lparr> json_loads = (\<lambda>j. None), float_of_str = (\<lambda>f. None), system_prompt = [] \<rparr> (\<lambda>n req. Inl OracleFailure)
            (PauseDetected (Some '' What pricing tiers do you offer? ''))
            (initial_session\<lparr> greeting_sent := True \<rparr>)) = Continue
   \<and> sent (snd (handle_message \<lparr> json_loads = (\<lambda>j. None), float_of_str = (\<lambda>f. None), system_prompt = [] \<rparr> (\<lambda>n req. Inl OracleFailure)
            (PauseDetected (Some '' What pricing tiers do you offer? ''))
            (initial_session\<lparr> greeting_sent := True \<rparr>))) = []"
proof -
  let ?orc = "\<lambda>(n::nat) (req::oracle_request). (Inl OracleFailure :: error + string)"
  let ?env = "\<lparr> json_loads = (\<lambda>j. None), float_of_str = (\<lambda>f. None), system_prompt = [] \<rparr>"
  let ?p = "''What pricing tiers do you offer?''"
  let ?s = "initial_session\<lparr> greeting_sent := True \<rparr>"
  have o: "fst (call_oracle ?orc (response_request ?p []) []) = Inl OracleFailure"
    by (simp add: call_oracle_def)
  have r: "?p = recent_text_of (Some '' What pricing tiers do you offer? '')"
    by code_simp
  have t: "\<not> too_short ?p"
    by code_simp
  have h: "?p = recent_text_of (Some '' What pricing tiers do you offer? '')
        \<and> [] = conversation_history ?s \<and> [] = oracle_calls ?s \<and> \<not> too_short ?p \<and> greeting_sent ?s"
    using r t by (simp add: initial_session_def)
  note w = oracle_failure_is_silence [OF o, of "Some '' What pricing tiers do you offer? ''" ?s ?env]
  from w have a: "generate_natural_response ?orc ?p [] [] = ([], [response_request ?p []])"
    by simp
  from w h have "handle_message ?env ?orc (PauseDetected (Some '' What pricing tiers do you offer? '')) ?s =
                (Continue, ?s\<lparr> oracle_calls := [] @ [response_request ?p []],
                               conversation_history := [] @
                                 [\<lparr> speaker = Presenter, turn_text = ?p \<rparr>] \<rparr>)"
    by blast
  then have b: "fst (handle_message ?env ?orc (PauseDetected (Some '' What pricing tiers do you offer? '')) ?s) = Continue"
    and c: "sent (snd (handle_message ?env ?orc (PauseDetected (Some '' What pricing tiers do you offer? '')) ?s)) = []"
    by (simp_all add: initial_session_def)
  from a b c show ?thesis by blast
qed


section \<open>The classifier and the transcript\<close>

lemma endswith_single: "endswith s [c] \<longleftrightarrow> s \<noteq> [] \<and> last s = c"
  by (cases s rule: rev_cases) (simp_all add: endswith_def)

lemma endswith_double:
  assumes "endswith s [c, c]"
  shows "endswith s [c]"
proof -
  from assms have d: "drop (length s - 2) s = [c, c]"
    by (simp add: endswith_def numeral_2_eq_2)
  have "s = take (length s - 2) s @ drop (length s - 2) s"
    by simp
  with d have "s = take (length s - 2) s @ [c, c]"
    by simp
  then obtain p where "s = p @ [c, c]" ..
  then show ?thesis
    by (simp add: endswith_single)
qed

lemma trailing_question_marks_pos:
  "1 \<le> trailing_question_marks s \<longleftrightarrow> s \<noteq> [] \<and> last s = CHR ''?''"
  by (cases s rule: rev_cases) (simp_all add: trailing_question_marks_def)

lemma trailing_question_marks_iff:
  "1 \<le> trailing_question_marks s \<longleftrightarrow> (\<exists>p n. 0 < n \<and> s = p @ replicate n (CHR ''?''))"
proof
  assume "1 \<le> trailing_question_marks s"
  then have "s \<noteq> []" and "last s = CHR ''?''"
    unfolding trailing_question_marks_pos by blast+
  then have "s = butlast s @ replicate 1 (CHR ''?'')"
    using append_butlast_last_id [of s] by simp
  then show "\<exists>p n. 0 < n \<and> s = p @ replicate n (CHR ''?'')"
    by (intro exI [of _ "butlast s"] exI [of _ "1::nat"]) simp
next
  assume "\<exists>p n. 0 < n \<and> s = p @ replicate n (CHR ''?'')"
  then obtain p n where "0 < n" and s: "s = p @ replicate n (CHR ''?'')"
    by blast
  then obtain k where "n = Suc k"
    by (cases n) simp_all
  with s have "s = (p @ replicate k (CHR ''?'')) @ [CHR ''?'']"
    by (simp add: replicate_append_same)
  then have "s \<noteq> [] \<and> last s = CHR ''?''"
    by simp
  then show "1 \<le> trailing_question_marks s"
    unfolding trailing_question_marks_pos .
qed

lemma startswith_prefix: "startswith s p \<longleftrightarrow> prefix p s"
proof
  assume "startswith s p"
  then have "take (length p) s = p"
    by (simp add: startswith_def)
  then have "s = p @ drop (length p) s"
    by (metis append_take_drop_id)
  then show "prefix p s"
    by (rule prefixI)
next
  assume "prefix p s"
  then obtain zs where "s = p @ zs"
    by (rule prefixE)
  then show "startswith s p"
    by (simp add: startswith_def)
qed

lemma split_from_no_sep: "sep \<notin> set s \<Longrightarrow> split_from sep w s = [w @ s]"
  by (induction s arbitrary: w) auto

lemma split_from_append_sep:
  "sep \<notin> set x \<Longrightarrow> split_from sep w (x @ sep # rest) = (w @ x) # split_from sep [] rest"
  by (induction x arbitrary: w) auto

lemma strip_by_kept_end:
  assumes "\<not> P y" and "\<forall>c\<in>set ws. P c"
  shows "strip_by P (xs @ y # ws) = dropWhile P xs @ [y]"
proof -
  have "dropWhile P (xs @ y # ws) = dropWhile P xs @ y # ws"
    using assms(1) by (rule dropWhile_append3)
  moreover have "dropWhile P (rev ws @ y # rev (dropWhile P xs)) = dropWhile P (y # rev (dropWhile P xs))"
    by (rule dropWhile_append2) (use assms(2) in simp)
  moreover have "dropWhile P (y # rev (dropWhile P xs)) = y # rev (dropWhile P xs)"
    using assms(1) by simp
  ultimately show ?thesis
    by (simp add: strip_by_def)
qed

lemma not_isspace_question_mark: "\<not> isspace (CHR ''?'')"
  by (simp add: isspace_def)

lemma not_isspace_period: "\<not> isspace (CHR ''.'')"
  by (simp add: isspace_def)

lemma blank_not_question:
  assumes "str_strip utterance = []"
  shows "\<not> is_question utterance"
proof -
  from assms have b: "\<forall>c\<in>set utterance. isspace c"
    by (simp add: str_strip_Nil_iff)
  with not_isspace_period have "CHR ''.'' \<notin> set utterance"
    by blast
  then have "split_on (CHR ''.'') utterance = [utterance]"
    by (simp add: split_on_def split_from_no_sep)
  with assms show ?thesis
    by (simp add: is_question_def sentence_starts_def endswith_def)
qed

lemma question_marks_are_question:
  assumes "0 < n" and "\<forall>c\<in>set trailing. isspace c"
  shows "is_question (body @ replicate n (CHR ''?'') @ trailing)"
proof -
  from assms(1) obtain k where n: "n = Suc k"
    by (cases n) simp_all
  have e: "body @ replicate n (CHR ''?'') @ trailing
          = (body @ replicate k (CHR ''?'')) @ CHR ''?'' # trailing"
    by (simp add: n replicate_append_same)
  have "str_strip (body @ replicate n (CHR ''?'') @ trailing)
          = strip_by isspace ((body @ replicate k (CHR ''?'')) @ CHR ''?'' # trailing)"
    unfolding str_strip_def e ..
  also have "\<dots> = dropWhile isspace (body @ replicate k (CHR ''?'')) @ [CHR ''?'']"
    by (rule strip_by_kept_end [OF not_isspace_question_mark assms(2)])
  finally have "str_strip (body @ replicate n (CHR ''?'') @ trailing)
          = dropWhile isspace (body @ replicate k (CHR ''?'')) @ [CHR ''?'']" .
  then have "endswith (str_strip (body @ replicate n (CHR ''?'') @ trailing)) ''?''"
    by (simp add: endswith_single)
  then show ?thesis
    by (simp add: is_question_def)
qed

lemma str_upper_speaker_name:
  "str_upper (speaker_name sp) = (case sp of Presenter \<Rightarrow> ''PRESENTER'' | Customer \<Rightarrow> ''CUSTOMER'')"
proof (cases sp)
  case Presenter
  have "str_upper ''presenter'' = ''PRESENTER''"
    by code_simp
  with Presenter show ?thesis by simp
next
  case Customer
  have "str_upper ''customer'' = ''CUSTOMER''"
    by code_simp
  with Customer show ?thesis by simp
qed

lemma render_turn_line:
  "render_turn h =
     (case speaker h of Presenter \<Rightarrow> ''PRESENTER'' | Customer \<Rightarrow> ''CUSTOMER'') @ '': '' @ turn_text h"
  by (simp add: render_turn_def str_upper_speaker_name)

lemma render_turn_no_newline:
  assumes "CHR 0x0A \<notin> set (turn_text h)"
  shows "CHR 0x0A \<notin> set (render_turn h)"
  using assms by (cases "speaker h") (simp_all add: render_turn_line)

lemma split_on_join:
  assumes "xs \<noteq> []" and "\<forall>x\<in>set xs. sep \<notin> set x"
  shows "split_on sep (str_join [sep] xs) = xs"
  using assms
proof (induction xs rule: induct_list012)
  case 1
  then show ?case by simp
next
  case (2 x)
  then show ?case
    by (simp add: split_on_def split_from_no_sep)
next
  case (3 x y zs)
  then have "split_from sep [] (str_join [sep] (y # zs)) = y # zs"
    by (simp add: split_on_def)
  with 3 show ?case
    by (simp add: split_on_def split_from_append_sep)
qed

text \<open>
  Claim C7, as amended. The transcript is the lines \<open>SPEAKER: text\<close> of the history in
  the order of appending, joined by newlines. When the history has at least one turn and
  no turn's text contains a newline, splitting the transcript on newlines gives exactly
  those lines again, one for each turn, in the same order.
\<close>

theorem transcript_round_trip:
  assumes "history \<noteq> []"
    and "\<forall>h\<in>set history. CHR 0x0A \<notin> set (turn_text h)"
  shows "full_transcript history =
           str_join [CHR 0x0A]
             (map (\<lambda>h. (case speaker h of Presenter \<Rightarrow> ''PRESENTER'' | Customer \<Rightarrow> ''CUSTOMER'')
                          @ '': '' @ turn_text h) history)
       \<and> split_on (CHR 0x0A) (full_transcript history)
           = map render_turn history
       \<and> length (split_on (CHR 0x0A) (full_transcript history))
           = length history"
proof -
  have a: "full_transcript history =
           str_join [CHR 0x0A]
             (map (\<lambda>h. (case speaker h of Presenter \<Rightarrow> ''PRESENTER'' | Customer \<Rightarrow> ''CUSTOMER'')
                          @ '': '' @ turn_text h) history)"
  proof -
    have "render_turn = (\<lambda>h. (case speaker h of Presenter \<Rightarrow> ''PRESENTER'' | Customer \<Rightarrow> ''CUSTOMER'')
                          @ '': '' @ turn_text h)"
      by (rule ext) (rule render_turn_line)
    then show ?thesis
      by (simp only: full_transcript_def newline_def)
  qed
  have "map render_turn history \<noteq> []"
    using assms(1) by simp
  moreover have "\<forall>x\<in>set (map render_turn history). CHR 0x0A \<notin> set x"
    using assms(2) render_turn_no_newline by auto
  ultimately have b: "split_on (CHR 0x0A) (full_transcript history)
           = map render_turn history"
    unfolding full_transcript_def newline_def by (rule split_on_join)
  from a b show ?thesis by simp
qed

theorem transcript_round_trip_witness:
  "split_on (CHR 0x0A) (full_transcript
      [\<lparr> speaker = Presenter, turn_text = ''What do you think about it?'' \<rparr>,
       \<lparr> speaker = Customer, turn_text = ''It looks promising.'' \<rparr>])
   = [''PRESENTER: What do you think about it?'', ''CUSTOMER: It looks promising.'']"
proof -
  let ?h = "[\<lparr> speaker = Presenter, turn_text = ''What do you think about it?'' \<rparr>,
       \<lparr> speaker = Customer, turn_text = ''It looks promising.'' \<rparr>]"
  have n: "?h \<noteq> []"
    by simp
  have f: "\<forall>h\<in>set ?h. CHR 0x0A \<notin> set (turn_text h)"
    by simp
  have r: "map render_turn ?h = [''PRESENTER: What do you think about it?'', ''CUSTOMER: It looks promising.'']"
    by (simp add: render_turn_line)
  from transcript_round_trip [OF n f]
  have "split_on (CHR 0x0A) (full_transcript ?h) = map render_turn ?h"
    by blast
  with r show ?thesis
    by (simp only:)
qed

theorem transcript_round_trip_counterexample:
  "length (split_on (CHR 0x0A) (full_transcript
      [\<lparr> speaker = Presenter, turn_text = ''We cut costs.'' @ [CHR 0x0A] @ ''Any questions?'' \<rparr>]))
     \<noteq> length [\<lparr> speaker = Presenter, turn_text = ''We cut costs.'' @ [CHR 0x0A] @ ''Any questions?'' \<rparr>]
   \<and> length (split_on (CHR 0x0A) (full_transcript [])) \<noteq> length ([] :: turn list)"
  by code_simp

section \<open>The analysis and the report at the end of a presentation\<close>

lemma analyze_presentation_calls:
  "snd (analyze_presentation env orc transcript calls) = calls @ [analysis_request env transcript]"
  by (simp add: analyze_presentation_def call_oracle_def split: sum.splits option.splits pyval.splits)

lemma analyze_presentation_result:
  "fst (analyze_presentation env orc transcript calls) =
     (case fst (call_oracle orc (analysis_request env transcript) calls) of
        Inl e \<Rightarrow> Inl e
      | Inr result_json \<Rightarrow>
          (case json_loads env result_json of
             None \<Rightarrow> Inl InvalidJSONResponse
           | Some (PDict result_data) \<Rightarrow>
               (case validate_report env result_data of
                  None \<Rightarrow> Inl ValidationError
                | Some report \<Rightarrow> Inr report)
           | Some _ \<Rightarrow> Inl TypeError))"
  by (simp add: analyze_presentation_def call_oracle_def SalesCoachingReport_def
      split: sum.splits option.splits pyval.splits)

text \<open>
  Claim C8. The analyzer makes exactly one request to the oracle, whatever the reply.
  A reply that is not JSON raises the error for an invalid JSON response; a reply that
  parses to something other than an object, or to an object that the report model
  rejects, raises the library's error unchanged. A report is returned exactly when the
  oracle replied, the reply parsed to an object and the object passed validation.
\<close>

theorem analysis_fails_on_malformed_reply:
  "snd (analyze_presentation env orc transcript calls) = calls @ [analysis_request env transcript]
   \<and> (fst (call_oracle orc (analysis_request env transcript) calls) = Inr result_json
        \<and> json_loads env result_json = None
      \<longrightarrow> fst (analyze_presentation env orc transcript calls) = Inl InvalidJSONResponse)
   \<and> (fst (call_oracle orc (analysis_request env transcript) calls) = Inr result_json
        \<and> json_loads env result_json = Some v \<and> (\<forall>kwargs. v \<noteq> PDict kwargs)
      \<longrightarrow> fst (analyze_presentation env orc transcript calls) = Inl TypeError)
   \<and> (fst (call_oracle orc (analysis_request env transcript) calls) = Inr result_json
        \<and> json_loads env result_json = Some (PDict kwargs) \<and> validate_report env kwargs = None
      \<longrightarrow> fst (analyze_presentation env orc transcript calls) = Inl ValidationError)
   \<and> (fst (analyze_presentation env orc transcript calls) = Inr report
      \<longleftrightarrow> (\<exists>reply data. fst (call_oracle orc (analysis_request env transcript) calls) = Inr reply
             \<and> json_loads env reply = Some (PDict data) \<and> validate_report env data = Some report))"
proof (intro conjI impI)
  show "snd (analyze_presentation env orc transcript calls) = calls @ [analysis_request env transcript]"
    by (rule analyze_presentation_calls)
  show "fst (analyze_presentation env orc transcript calls) = Inl InvalidJSONResponse"
    if "fst (call_oracle orc (analysis_request env transcript) calls) = Inr result_json
        \<and> json_loads env result_json = None"
    using that by (simp add: analyze_presentation_result)
  show "fst (analyze_presentation env orc transcript calls) = Inl TypeError"
    if "fst (call_oracle orc (analysis_request env transcript) calls) = Inr result_json
        \<and> json_loads env result_json = Some v \<and> (\<forall>kwargs. v \<noteq> PDict kwargs)"
    using that by (cases v) (simp_all add: analyze_presentation_result)
  show "fst (analyze_presentation env orc transcript calls) = Inl ValidationError"
    if "fst (call_oracle orc (analysis_request env transcript) calls) = Inr result_json
        \<and> json_loads env result_json = Some (PDict kwargs) \<and> validate_report env kwargs = None"
    using that by (simp add: analyze_presentation_result)
  show "fst (analyze_presentation env orc transcript calls) = Inr report
      \<longleftrightarrow> (\<exists>reply data. fst (call_oracle orc (analysis_request env transcript) calls) = Inr reply
             \<and> json_loads env reply = Some (PDict data) \<and> validate_report env data = Some report)"
    by (auto simp: analyze_presentation_result split: sum.splits option.splits pyval.splits)
qed


theorem analysis_fails_on_malformed_reply_witness:
  "fst (analyze_presentation
          \<lparr> json_loads = (\<lambda>j. if j = ''{}'' then Some (PDict []) else None),
            float_of_str = (\<lambda>f. None), system_prompt = ''You are a sales coach.'' \<rparr>
          (\<lambda>n req. Inr ''Sorry, I cannot help.'') ''PRESENTER: Any questions?'' [])
     = Inl InvalidJSONResponse
   \<and> fst (analyze_presentation
          \<lparr> json_loads = (\<lambda>j. if j = ''{}'' then Some (PDict []) else None),
            float_of_str = (\<lambda>f. None), system_prompt = ''You are a sales coach.'' \<rparr>
          (\<lambda>n req. Inr ''{}'') ''PRESENTER: Any questions?'' [])
     = Inl ValidationError"
proof -
  let ?env = "\<lparr> json_loads = (\<lambda>j. if j = ''{}'' then Some (PDict []) else None),
            float_of_str = (\<lambda>f. None), system_prompt = ''You are a sales coach.'' \<rparr>"
  let ?t = "''PRESENTER: Any questions?''"
  let ?bad = "\<lambda>(n::nat) (req::oracle_request). (Inr ''Sorry, I cannot help.'' :: error + string)"
  let ?obj = "\<lambda>(n::nat) (req::oracle_request). (Inr ''{}'' :: error + string)"
  have a: "fst (call_oracle ?bad (analysis_request ?env ?t) []) = Inr ''Sorry, I cannot help.''
           \<and> json_loads ?env ''Sorry, I cannot help.'' = None"
    by (simp add: call_oracle_def)
  have b: "fst (call_oracle ?obj (analysis_request ?env ?t) []) = Inr ''{}''
           \<and> json_loads ?env ''{}'' = Some (PDict []) \<and> validate_report ?env [] = None"
    by (simp add: call_oracle_def validate_report_def required_def)
  from analysis_fails_on_malformed_reply
    [where env = ?env and orc = ?bad and transcript = ?t and calls = "[]"
       and result_json = "''Sorry, I cannot help.''"] a
  have x: "fst (analyze_presentation ?env ?bad ?t []) = Inl InvalidJSONResponse"
    by blast
  from analysis_fails_on_malformed_reply
    [where env = ?env and orc = ?obj and transcript = ?t and calls = "[]"
       and result_json = "''{}''" and kwargs = "[]"] b
  have y: "fst (analyze_presentation ?env ?obj ?t []) = Inl ValidationError"
    by blast
  from x y show ?thesis by (rule conjI)
qed

lemma required_missing: "map_of kwargs k = None \<Longrightarrow> required f kwargs k = None"
  by (simp add: required_def)

lemma missing_required_field:
  assumes "k \<in> set required_fields" and "map_of kwargs k = None"
  shows "validate_report env kwargs = None"
proof -
  from assms(1) have "k = ''overall_score'' \<or> k = ''performance_level'' \<or> k = ''criteria_scores'' \<or> k = ''strengths'' \<or> k = ''improvements'' \<or> k = ''summary'' \<or> k = ''next_steps''"
    by (simp add: required_fields_def)
  then show ?thesis
  proof (elim disjE)
    assume "k = ''overall_score''"
    with assms(2) have "map_of kwargs ''overall_score'' = None"
      by simp
    then show ?thesis
      by (simp add: validate_report_def required_missing bind_eq_None_conv)
  next
    assume "k = ''performance_level''"
    with assms(2) have "map_of kwargs ''performance_level'' = None"
      by simp
    then show ?thesis
      by (simp add: validate_report_def required_missing bind_eq_None_conv)
  next
    assume "k = ''criteria_scores''"
    with assms(2) have "map_of kwargs ''criteria_scores'' = None"
      by simp
    then show ?thesis
      by (simp add: validate_report_def required_missing bind_eq_None_conv)
  next
    assume "k = ''strengths''"
    with assms(2) have "map_of kwargs ''strengths'' = None"
      by simp
    then show ?thesis
      by (simp add: validate_report_def required_missing bind_eq_None_conv)
  next
    assume "k = ''improvements''"
    with assms(2) have "map_of kwargs ''improvements'' = None"
      by simp
    then show ?thesis
      by (simp add: validate_report_def required_missing bind_eq_None_conv)
  next
    assume "k = ''summary''"
    with assms(2) have "map_of kwargs ''summary'' = None"
      by simp
    then show ?thesis
      by (simp add: validate_report_def required_missing bind_eq_None_conv)
  next
    assume "k = ''next_steps''"
    with assms(2) have "map_of kwargs ''next_steps'' = None"
      by simp
    then show ?thesis
      by (simp add: validate_report_def required_missing bind_eq_None_conv)
  qed
qed

lemma required_cons_other:
  "k \<noteq> field \<Longrightarrow> required f ((k, v) # kwargs) field = required f kwargs field"
  by (simp add: required_def)

lemma with_default_cons_other:
  "k \<noteq> field \<Longrightarrow> with_default d f ((k, v) # kwargs) field = with_default d f kwargs field"
  by (simp add: with_default_def)

lemma undeclared_field_ignored:
  assumes "k \<notin> set report_fields"
  shows "validate_report env ((k, v) # kwargs) = validate_report env kwargs"
proof -
  from assms have "k \<noteq> ''overall_score''" "k \<noteq> ''performance_level''"
    "k \<noteq> ''criteria_scores''" "k \<noteq> ''strengths''" "k \<noteq> ''improvements''"
    "k \<noteq> ''rule_violations''" "k \<noteq> ''summary''" "k \<noteq> ''next_steps''"
    by (simp_all add: report_fields_def)
  then show ?thesis
    by (simp add: validate_report_def required_cons_other with_default_cons_other)
qed

lemma full_transcript_Nil_iff: "full_transcript history = [] \<longleftrightarrow> history = []"
proof (cases history)
  case Nil
  then show ?thesis by (simp add: full_transcript_def)
next
  case (Cons h hs)
  have "render_turn h \<noteq> []"
    by (simp add: render_turn_def)
  then have "str_join newline (render_turn h # map render_turn hs) \<noteq> []"
    by (cases hs) simp_all
  with Cons show ?thesis
    by (simp add: full_transcript_def)
qed

lemma minimal_report_rejected: "SalesCoachingReport env minimal_report_kwargs = Inl ValidationError"
proof -
  have "''performance_level'' \<in> set required_fields"
    by (simp add: required_fields_def)
  moreover have "map_of minimal_report_kwargs ''performance_level'' = None"
    by (simp add: minimal_report_kwargs_def)
  ultimately have "validate_report env minimal_report_kwargs = None"
    by (rule missing_required_field)
  then show ?thesis
    by (simp add: SalesCoachingReport_def)
qed

text \<open>
  Claim C9. The minimal report built for a session without conversation fails validation
  in every environment: of the required fields it lacks \<open>performance_level\<close>,
  \<open>criteria_scores\<close>, \<open>improvements\<close> and \<open>summary\<close>, and it names \<open>scores\<close>,
  \<open>areas_for_improvement\<close> and \<open>specific_recommendations\<close>, which the model does not
  declare. So an end of presentation with an empty history leaves the loop by the
  exception, with the session as it was and no coaching report sent.
\<close>

theorem empty_session_report_fails_validation:
  "SalesCoachingReport env minimal_report_kwargs = Inl ValidationError
   \<and> filter (\<lambda>k. map_of minimal_report_kwargs k = None) required_fields
       = [''performance_level'', ''criteria_scores'', ''improvements'', ''summary'']
   \<and> filter (\<lambda>k. k \<notin> set report_fields) (map fst minimal_report_kwargs)
       = [''scores'', ''areas_for_improvement'', ''specific_recommendations'']
   \<and> (conversation_history s = [] \<longrightarrow>
        handle_message env orc EndPresentation s = (Closed, s)
        \<and> run env orc (EndPresentation # ms) s = (Closed, s))"
proof (intro conjI impI)
  show "SalesCoachingReport env minimal_report_kwargs = Inl ValidationError"
    by (rule minimal_report_rejected)
  show "filter (\<lambda>k. map_of minimal_report_kwargs k = None) required_fields
       = [''performance_level'', ''criteria_scores'', ''improvements'', ''summary'']"
    by (simp add: minimal_report_kwargs_def required_fields_def)
  show "filter (\<lambda>k. k \<notin> set report_fields) (map fst minimal_report_kwargs)
       = [''scores'', ''areas_for_improvement'', ''specific_recommendations'']"
    by (simp add: minimal_report_kwargs_def report_fields_def)
next
  assume e: "conversation_history s = []"
  then show h: "handle_message env orc EndPresentation s = (Closed, s)"
    by (simp add: on_end_def full_transcript_Nil_iff minimal_report_rejected)
  then show "run env orc (EndPresentation # ms) s = (Closed, s)"
    by simp
qed

theorem empty_session_report_fails_validation_witness:
  "conversation_history (snd (run
      \<lparr> json_loads = (\<lambda>j. None), float_of_str = (\<lambda>f. None), system_prompt = [] \<rparr>
      (\<lambda>n req. Inr ''SILENT'') [StartSession] initial_session)) = []
   \<and> run \<lparr> json_loads = (\<lambda>j. None), float_of_str = (\<lambda>f. None), system_prompt = [] \<rparr>
      (\<lambda>n req. Inr ''SILENT'') [EndPresentation]
      (snd (run \<lparr> json_loads = (\<lambda>j. None), float_of_str = (\<lambda>f. None), system_prompt = [] \<rparr>
      (\<lambda>n req. Inr ''SILENT'') [StartSession] initial_session))
     = (Closed, initial_session\<lparr> sent := [AvatarSpeak greeting], greeting_sent := True \<rparr>)"
proof -
  let ?env = "\<lparr> json_loads = (\<lambda>j. None), float_of_str = (\<lambda>f. None), system_prompt = [] \<rparr>"
  let ?orc = "\<lambda>(n::nat) (req::oracle_request). (Inr ''SILENT'' :: error + string)"
  have r: "snd (run ?env ?orc [StartSession] initial_session)
             = initial_session\<lparr> sent := [AvatarSpeak greeting], greeting_sent := True \<rparr>"
    by (simp add: initial_session_def)
  have c: "conversation_history (snd (run ?env ?orc [StartSession] initial_session)) = []"
    by (simp add: initial_session_def)
  from empty_session_report_fails_validation
    [of ?env "snd (run ?env ?orc [StartSession] initial_session)" ?orc "[]"] c
  have "run ?env ?orc [EndPresentation] (snd (run ?env ?orc [StartSession] initial_session))
          = (Closed, snd (run ?env ?orc [StartSession] initial_session))"
    by blast
  with r c show ?thesis
    by (simp only:)
qed

section \<open>The string operations and the notions of the specification\<close>

lemma trimmed_of_iff:
  "trimmed_of P s t \<longleftrightarrow>
     (\<exists>a b. s = a @ t @ b \<and> (\<forall>c\<in>set a. P c) \<and> (\<forall>c\<in>set b. P c)
        \<and> (t = [] \<or> (\<not> P (hd t) \<and> \<not> P (last t))))"
proof
  assume "trimmed_of P s t"
  then show "\<exists>a b. s = a @ t @ b \<and> (\<forall>c\<in>set a. P c) \<and> (\<forall>c\<in>set b. P c)
        \<and> (t = [] \<or> (\<not> P (hd t) \<and> \<not> P (last t)))"
    unfolding trimmed_of_def list_all_iff by blast
next
  assume "\<exists>a b. s = a @ t @ b \<and> (\<forall>c\<in>set a. P c) \<and> (\<forall>c\<in>set b. P c)
        \<and> (t = [] \<or> (\<not> P (hd t) \<and> \<not> P (last t)))"
  then obtain a b where s: "s = a @ t @ b" and r: "(\<forall>c\<in>set a. P c) \<and> (\<forall>c\<in>set b. P c)
        \<and> (t = [] \<or> (\<not> P (hd t) \<and> \<not> P (last t)))"
    by blast
  from s have "a \<in> set (prefixes s)"
    by (simp add: in_set_prefixes)
  moreover from s have "b \<in> set (suffixes s)"
    by (simp add: in_set_suffixes suffix_def)
  ultimately show "trimmed_of P s t"
    unfolding trimmed_of_def list_all_iff using s r by blast
qed

lemma strip_by_dropWhile:
  "dropWhile P s = strip_by P s @ rev (takeWhile P (rev (dropWhile P s)))"
proof -
  let ?d = "dropWhile P s"
  have "?d = rev (takeWhile P (rev ?d) @ dropWhile P (rev ?d))"
    by (simp only: takeWhile_dropWhile_id rev_rev_ident)
  then have "?d = rev (dropWhile P (rev ?d)) @ rev (takeWhile P (rev ?d))"
    by (simp only: rev_append)
  then show ?thesis
    by (simp only: strip_by_def)
qed

lemma strip_by_decomposition:
  "s = takeWhile P s @ strip_by P s @ rev (takeWhile P (rev (dropWhile P s)))"
proof -
  have "s = takeWhile P s @ dropWhile P s"
    by simp
  moreover have "takeWhile P s @ dropWhile P s
      = takeWhile P s @ strip_by P s @ rev (takeWhile P (rev (dropWhile P s)))"
    using strip_by_dropWhile [of P s] by (rule arg_cong)
  ultimately show ?thesis
    by (rule trans)
qed

lemma strip_by_ends:
  assumes "strip_by P s \<noteq> []"
  shows "\<not> P (hd (strip_by P s)) \<and> \<not> P (last (strip_by P s))"
proof -
  let ?d = "dropWhile P s"
  from assms have n: "dropWhile P (rev ?d) \<noteq> []"
    by (simp add: strip_by_def del: dropWhile_eq_Nil_conv)
  then have "\<not> P (hd (dropWhile P (rev ?d)))"
    by (rule hd_dropWhile)
  then have l: "\<not> P (last (strip_by P s))"
    using n by (simp add: strip_by_def last_rev del: dropWhile_eq_Nil_conv)
  have d: "?d \<noteq> []"
  proof
    assume "?d = []"
    then have "dropWhile P (rev ?d) = []"
      by (simp only: rev.simps dropWhile.simps)
    with n show False ..
  qed
  then have "\<not> P (hd ?d)"
    by (rule hd_dropWhile)
  moreover have "hd ?d = hd (strip_by P s @ rev (takeWhile P (rev ?d)))"
    using strip_by_dropWhile [of P s] by (rule arg_cong)
  moreover have "hd (strip_by P s @ rev (takeWhile P (rev ?d))) = hd (strip_by P s)"
    using assms by (rule hd_append2)
  ultimately show ?thesis
    using l by simp
qed

lemma strip_by_between:
  assumes "\<forall>c\<in>set a. P c" and "\<forall>c\<in>set b. P c" and "t \<noteq> []"
    and "\<not> P (hd t)" and "\<not> P (last t)"
  shows "strip_by P (a @ t @ b) = t"
proof -
  have "dropWhile P (a @ t @ b) = dropWhile P (t @ b)"
    by (rule dropWhile_append2) (use assms(1) in simp)
  also have "\<dots> = t @ b"
    using assms(3,4) by (cases t) simp_all
  finally have d: "dropWhile P (a @ t @ b) = t @ b" .
  have "dropWhile P (rev b @ rev t) = dropWhile P (rev t)"
    by (rule dropWhile_append2) (use assms(2) in simp)
  also have "\<dots> = rev t"
    using assms(3,5) by (cases t rule: rev_cases) simp_all
  finally show ?thesis
    by (simp add: strip_by_def d)
qed

lemma strip_by_trimmed: "strip_by P s = t \<longleftrightarrow> trimmed_of P s t"
proof
  assume e: "strip_by P s = t"
  have "s = takeWhile P s @ t @ rev (takeWhile P (rev (dropWhile P s)))"
    unfolding e [symmetric] by (rule strip_by_decomposition)
  moreover have "\<forall>c\<in>set (takeWhile P s). P c"
    by (auto dest: set_takeWhileD)
  moreover have "\<forall>c\<in>set (rev (takeWhile P (rev (dropWhile P s)))). P c"
    by (auto dest: set_takeWhileD)
  moreover have "t = [] \<or> (\<not> P (hd t) \<and> \<not> P (last t))"
    using strip_by_ends [of P s] e by blast
  ultimately show "trimmed_of P s t"
    unfolding trimmed_of_iff by blast
next
  assume "trimmed_of P s t"
  then obtain a b where s: "s = a @ t @ b" and a: "\<forall>c\<in>set a. P c" and b: "\<forall>c\<in>set b. P c"
    and t: "t = [] \<or> (\<not> P (hd t) \<and> \<not> P (last t))"
    unfolding trimmed_of_iff by blast
  show "strip_by P s = t"
  proof (cases "t = []")
    case True
    with s a b show ?thesis
      by (auto simp: strip_by_Nil_iff)
  next
    case False
    with t have "\<not> P (hd t)" and "\<not> P (last t)"
      by blast+
    with a b False show ?thesis
      unfolding s by (rule strip_by_between)
  qed
qed

lemma split_from_sentence:
  assumes "x \<in> set (split_from sep w s)" and "sep \<notin> set w"
  shows "\<exists>pre post. w @ s = pre @ x @ post \<and> sep \<notin> set x
           \<and> (pre = [] \<or> last pre = sep) \<and> (post = [] \<or> hd post = sep)"
  using assms
proof (induction s arbitrary: w)
  case Nil
  then have "w @ [] = [] @ x @ [] \<and> sep \<notin> set x
           \<and> ([] = [] \<or> last [] = sep) \<and> ([] = [] \<or> hd [] = sep)"
    by simp
  then show ?case by blast
next
  case (Cons c cs)
  show ?case
  proof (cases "c = sep")
    case False
    with Cons.prems have "x \<in> set (split_from sep (w @ [c]) cs)" and "sep \<notin> set (w @ [c])"
      by simp_all
    from Cons.IH [OF this] show ?thesis
      by simp
  next
    case True
    with Cons.prems have "x = w \<or> x \<in> set (split_from sep [] cs)"
      by simp
    then show ?thesis
    proof
      assume "x = w"
      with True Cons.prems(2) have "w @ c # cs = [] @ x @ (sep # cs) \<and> sep \<notin> set x
           \<and> ([] = [] \<or> last [] = sep) \<and> (sep # cs = [] \<or> hd (sep # cs) = sep)"
        by simp
      then show ?thesis by blast
    next
      assume "x \<in> set (split_from sep [] cs)"
      then obtain pre post where p: "[] @ cs = pre @ x @ post" "sep \<notin> set x"
        "pre = [] \<or> last pre = sep" "post = [] \<or> hd post = sep"
        using Cons.IH [of "[]"] by auto
      with True have "w @ c # cs = (w @ sep # pre) @ x @ post \<and> sep \<notin> set x
           \<and> (w @ sep # pre = [] \<or> last (w @ sep # pre) = sep) \<and> (post = [] \<or> hd post = sep)"
        by auto
      then show ?thesis by blast
    qed
  qed
qed

lemma split_from_append:
  "split_from sep w (a @ sep # b) = split_from sep w a @ split_from sep [] b"
  by (induction a arbitrary: w) simp_all

lemma sentence_in_split_on:
  assumes "u = pre @ x @ post" and "sep \<notin> set x"
    and "pre = [] \<or> last pre = sep" and "post = [] \<or> hd post = sep"
  shows "x \<in> set (split_on sep u)"
proof -
  have r: "x \<in> set (split_from sep [] (x @ post))"
  proof (cases post)
    case Nil
    with assms(2) show ?thesis
      by (simp add: split_from_no_sep)
  next
    case (Cons p ps)
    with assms(4) have "post = sep # ps"
      by simp
    with assms(2) show ?thesis
      by (simp add: split_from_append split_from_no_sep)
  qed
  show ?thesis
  proof (cases pre rule: rev_cases)
    case Nil
    with r assms(1) show ?thesis
      by (simp add: split_on_def)
  next
    case (snoc ps p)
    with assms(3) have "pre = ps @ [sep]"
      by simp
    with assms(1) have "u = ps @ sep # (x @ post)"
      by simp
    with r show ?thesis
      by (simp add: split_on_def split_from_append)
  qed
qed

lemma in_split_on_iff: "x \<in> set (split_on (CHR ''.'') u) \<longleftrightarrow> is_sentence_of u x"
proof
  assume "x \<in> set (split_on (CHR ''.'') u)"
  then obtain pre post where "u = pre @ x @ post" "CHR ''.'' \<notin> set x"
    "pre = [] \<or> last pre = CHR ''.''" "post = [] \<or> hd post = CHR ''.''"
    using split_from_sentence [of x "CHR ''.''" "[]" u] by (auto simp: split_on_def)
  moreover from this have "pre \<in> set (prefixes u)" and "post \<in> set (suffixes u)"
    by (auto simp: in_set_prefixes in_set_suffixes suffix_def)
  ultimately show "is_sentence_of u x"
    unfolding is_sentence_of_def by blast
next
  assume "is_sentence_of u x"
  then obtain pre post where "u = pre @ x @ post" "CHR ''.'' \<notin> set x"
    "pre = [] \<or> last pre = CHR ''.''" "post = [] \<or> hd post = CHR ''.''"
    unfolding is_sentence_of_def by blast
  then show "x \<in> set (split_on (CHR ''.'') u)"
    by (rule sentence_in_split_on)
qed

lemma upper_chars_plain:
  "\<forall>c. list_all (\<lambda>u. (upper_chars c = [u]) = same_letter c u) (ascii_uppercase @ '' '')"
  by code_simp

lemma upper_chars_shape: "\<forall>c. upper_chars c = ''SS'' \<or> length (upper_chars c) = 1"
  by code_simp

lemma lower_char_plain:
  "\<forall>c. list_all (\<lambda>u. (lower_char c = u) =
       ((case map_of (zip ascii_uppercase ascii_lowercase) c of Some l \<Rightarrow> l | None \<Rightarrow> c) = u))
     (ascii_lowercase @ '' '')"
  by code_simp

lemma str_upper_plain:
  assumes "set t \<subseteq> set (ascii_uppercase @ '' '')" and "\<not> sublist ''SS'' t"
  shows "str_upper r = t \<longleftrightarrow> equal_ignoring_case r t"
  using assms
proof (induction r arbitrary: t)
  case Nil
  then show ?case
    by (auto simp: str_upper_def equal_ignoring_case_def)
next
  case (Cons c r)
  have ih: "str_upper r = t' \<longleftrightarrow> equal_ignoring_case r t'"
    if "t = u # t'" for u t'
  proof (rule Cons.IH)
    from Cons.prems(1) that show "set t' \<subseteq> set (ascii_uppercase @ '' '')"
      by auto
    from Cons.prems(2) that show "\<not> sublist ''SS'' t'"
      by (auto simp: sublist_Cons_right)
  qed
  have pt: "(upper_chars c = [u]) = same_letter c u" if "u \<in> set t" for u
    using upper_chars_plain Cons.prems(1) that unfolding list_all_iff by blast
  show ?case
  proof
    assume e: "str_upper (c # r) = t"
    then have a: "upper_chars c @ str_upper r = t"
      by (simp add: str_upper_def)
    have "upper_chars c \<noteq> ''SS''"
    proof
      assume "upper_chars c = ''SS''"
      with a have "prefix ''SS'' t"
        by (metis prefixI)
      then have "sublist ''SS'' t"
        by (rule prefix_imp_sublist)
      with Cons.prems(2) show False ..
    qed
    with upper_chars_shape have "length (upper_chars c) = 1"
      by blast
    then obtain u where u: "upper_chars c = [u]"
      by (cases "upper_chars c") auto
    with a have t: "t = u # str_upper r"
      by simp
    then have "u \<in> set t"
      by simp
    with pt u have "same_letter c u"
      by blast
    moreover from ih [OF t] have "equal_ignoring_case r (str_upper r)"
      by simp
    ultimately show "equal_ignoring_case (c # r) t"
      by (subst t) (simp add: equal_ignoring_case_def)
  next
    assume "equal_ignoring_case (c # r) t"
    then obtain u t' where t: "t = u # t'" and s: "same_letter c u"
      and r: "equal_ignoring_case r t'"
      by (auto simp: equal_ignoring_case_def list_all2_Cons1)
    from t have "u \<in> set t"
      by simp
    with pt s have "upper_chars c = [u]"
      by blast
    moreover from ih [OF t] r have "str_upper r = t'"
      by simp
    ultimately show "str_upper (c # r) = t"
      by (simp add: t str_upper_def)
  qed
qed

lemma upper_is_silent: "str_upper r = ''SILENT'' \<longleftrightarrow> equal_ignoring_case r ''SILENT''"
  by (rule str_upper_plain) (simp_all add: ascii_uppercase_def sublist_code)

lemma upper_is_silence: "str_upper r = ''SILENCE'' \<longleftrightarrow> equal_ignoring_case r ''SILENCE''"
  by (rule str_upper_plain) (simp_all add: ascii_uppercase_def sublist_code)

lemma upper_is_no_response:
  "str_upper r = ''NO RESPONSE'' \<longleftrightarrow> equal_ignoring_case r ''NO RESPONSE''"
  by (rule str_upper_plain) (simp_all add: ascii_uppercase_def sublist_code)

lemma prefix_map_agree:
  assumes "\<forall>c. \<forall>u\<in>set p. (f c = u) = (g c = u)"
  shows "prefix p (map f xs) = prefix p (map g xs)"
  using assms
proof (induction p arbitrary: xs)
  case Nil
  then show ?case by simp
next
  case (Cons u p)
  then have ih: "prefix p (map f ys) = prefix p (map g ys)" for ys
    by simp
  from Cons.prems have "(f c = u) = (g c = u)" for c
    by simp
  then have h: "(u = f c) = (u = g c)" for c
    by (simp add: eq_commute)
  show ?case
    by (cases xs) (simp_all add: ih h)
qed

lemma phrase_prefix_lowercase:
  assumes "phrase \<in> set spec_phrases"
  shows "prefix phrase (take 20 (str_lower t)) = prefix phrase (lowercase (take 20 t))"
proof -
  from assms have "set phrase \<subseteq> set (ascii_lowercase @ '' '')"
    by (auto simp: spec_phrases_def ascii_lowercase_def)
  then have "(lower_char c = u) =
       ((case map_of (zip ascii_uppercase ascii_lowercase) c of Some l \<Rightarrow> l | None \<Rightarrow> c) = u)"
    if "u \<in> set phrase" for c u
    using lower_char_plain that unfolding list_all_iff by blast
  then have "\<forall>c. \<forall>u\<in>set phrase. (lower_char c = u) =
       ((case map_of (zip ascii_uppercase ascii_lowercase) c of Some l \<Rightarrow> l | None \<Rightarrow> c) = u)"
    by blast
  then have "prefix phrase (map lower_char (take 20 t)) = prefix phrase (lowercase (take 20 t))"
    unfolding lowercase_def by (rule prefix_map_agree)
  then show ?thesis
    by (simp add: str_lower_def take_map)
qed

lemma word_starts_cong:
  "isspace p = isspace q \<Longrightarrow> word_starts p s = word_starts q s"
  by (cases s) simp_all

lemma length_split_ws_from:
  "length (split_ws_from w s) =
     (if w = [] then word_starts (CHR '' '') s else 1 + word_starts (CHR ''x'') s)"
proof (induction s arbitrary: w)
  case Nil
  then show ?case by simp
next
  case (Cons c cs)
  have sp: "isspace (CHR '' '')" and nx: "\<not> isspace (CHR ''x'')"
    by (simp_all add: isspace_def)
  show ?case
  proof (cases "isspace c")
    case True
    then have "word_starts c cs = word_starts (CHR '' '') cs"
      using sp by (intro word_starts_cong) simp
    with True show ?thesis
      by (simp add: Cons.IH)
  next
    case False
    then have "word_starts c cs = word_starts (CHR ''x'') cs"
      using nx by (intro word_starts_cong) simp
    with False sp nx show ?thesis
      by (simp add: Cons.IH)
  qed
qed

lemma length_split_ws: "length (split_ws s) = word_count s"
  by (simp add: split_ws_def word_count_def length_split_ws_from)

lemma word_starts_dropWhile:
  "isspace p \<Longrightarrow> word_starts p (dropWhile isspace s) = word_starts p s"
proof (induction s arbitrary: p)
  case Nil
  then show ?case by simp
next
  case (Cons c cs)
  show ?case
  proof (cases "isspace c")
    case True
    with Cons.prems have "word_starts p cs = word_starts c cs"
      by (intro word_starts_cong) simp
    with True Cons.IH [OF Cons.prems] show ?thesis
      by simp
  next
    case False
    then show ?thesis by simp
  qed
qed

lemma word_starts_blank_end:
  "\<forall>c\<in>set b. isspace c \<Longrightarrow> word_starts p (xs @ b) = word_starts p xs"
proof (induction xs arbitrary: p)
  case Nil
  then show ?case
    by (induction b arbitrary: p) simp_all
next
  case (Cons x xs)
  then show ?case by simp
qed

lemma word_count_str_strip: "word_count (str_strip s) = word_count s"
proof -
  have sp: "isspace (CHR '' '')"
    by (simp add: isspace_def)
  have "\<forall>c\<in>set (rev (takeWhile isspace (rev (dropWhile isspace s)))). isspace c"
    by (auto dest: set_takeWhileD)
  then have "word_starts (CHR '' '') (str_strip s @ rev (takeWhile isspace (rev (dropWhile isspace s))))
      = word_starts (CHR '' '') (str_strip s)"
    by (rule word_starts_blank_end)
  moreover have "str_strip s @ rev (takeWhile isspace (rev (dropWhile isspace s))) = dropWhile isspace s"
    using strip_by_dropWhile [of isspace s] by (simp add: str_strip_def)
  ultimately have "word_starts (CHR '' '') (str_strip s) = word_starts (CHR '' '') (dropWhile isspace s)"
    by simp
  with sp show ?thesis
    by (simp add: word_count_def word_starts_dropWhile)
qed

lemma too_short_iff: "too_short (recent_text_of recent) \<longleftrightarrow> pause_too_short recent"
proof (cases recent)
  case None
  have "str_strip [] = []"
    by (simp add: str_strip_Nil_iff)
  with None show ?thesis
    by (simp add: too_short_def recent_text_of_def pause_too_short_def)
next
  case (Some recent_text)
  then show ?thesis
    by (simp add: too_short_def recent_text_of_def pause_too_short_def str_strip_Nil_iff
        length_split_ws word_count_str_strip list_all_iff)
qed

section \<open>The decision on the reply of the oracle\<close>

lemma quote_chars_is_quote: "(\<lambda>c. c \<in> set quote_chars) = is_quote"
  by (rule ext) (auto simp: quote_chars_def is_quote_def)

lemma trimmed_space: "trimmed_of isspace s t \<longleftrightarrow> t = str_strip s"
  unfolding strip_by_trimmed [symmetric] str_strip_def by blast

lemma trimmed_quotes: "trimmed_of is_quote s t \<longleftrightarrow> t = strip_chars quote_chars s"
  unfolding strip_by_trimmed [symmetric] strip_chars_def quote_chars_is_quote by blast

text \<open>
  Claim C1. When the presenter's utterance is classified as a direct question and the
  oracle replies, let \<open>r\<close> be the reply trimmed of blanks and then of quotation marks
  (there is exactly one such text). If \<open>r\<close> is empty or equals SILENT or SILENCE
  ignoring case, the decision procedure returns the fixed fallback text, otherwise it
  returns \<open>r\<close>; what it returns is never empty, so a direct question never yields the
  silent decision.
\<close>

theorem direct_question_always_answered:
  assumes "is_question presenter_text"
    and "fst (call_oracle orc (response_request presenter_text history) calls) = Inr reply"
  shows "\<exists>u r. trimmed_of isspace reply u \<and> trimmed_of is_quote u r
           \<and> (\<forall>u' r'. trimmed_of isspace reply u' \<and> trimmed_of is_quote u' r' \<longrightarrow> r' = r)
           \<and> fst (generate_natural_response orc presenter_text history calls) =
               (if r = [] \<or> equal_ignoring_case r ''SILENT'' \<or> equal_ignoring_case r ''SILENCE''
                then ''That's a good question. Could you elaborate a bit more?'' else r)
           \<and> fst (generate_natural_response orc presenter_text history calls) \<noteq> []"
proof -
  let ?u = "str_strip reply"
  let ?r = "strip_chars quote_chars (str_strip reply)"
  have t: "trimmed_of isspace reply ?u \<and> trimmed_of is_quote ?u ?r"
    unfolding trimmed_space trimmed_quotes by simp
  have q: "\<forall>u' r'. trimmed_of isspace reply u' \<and> trimmed_of is_quote u' r' \<longrightarrow> r' = ?r"
    unfolding trimmed_space trimmed_quotes by simp
  have g: "fst (generate_natural_response orc presenter_text history calls) =
               (if ?r = [] \<or> equal_ignoring_case ?r ''SILENT'' \<or> equal_ignoring_case ?r ''SILENCE''
                then ''That's a good question. Could you elaborate a bit more?'' else ?r)"
    using assms(1) natural_response_reply [OF assms(2)]
    by (simp add: decide_response_def Let_def fallback_response_def upper_is_silent upper_is_silence)
  then have "fst (generate_natural_response orc presenter_text history calls) \<noteq> []"
    by simp
  with t q g show ?thesis
    by blast
qed

theorem direct_question_always_answered_witness:
  "is_question ''Does that make sense so far.''
   \<and> fst (generate_natural_response (\<lambda>n req. Inr (CHR 0xA0 # '' \"Silent\" ''))
            ''Does that make sense so far.'' [] [])
       = ''That's a good question. Could you elaborate a bit more?''
   \<and> fst (generate_natural_response (\<lambda>n req. Inr '' 'Yes, it does.' '')
            ''Does that make sense so far.'' [] [])
       = ''Yes, it does.''"
proof -
  let ?p = "''Does that make sense so far.''"
  let ?a = "CHR 0xA0 # '' \"Silent\" ''"
  let ?b = "'' 'Yes, it does.' ''"
  have q: "is_question ?p"
    by code_simp
  have oa: "fst (call_oracle (\<lambda>n req. Inr ?a) (response_request ?p []) []) = Inr ?a"
    by (simp add: call_oracle_def)
  have ob: "fst (call_oracle (\<lambda>n req. Inr ?b) (response_request ?p []) []) = Inr ?b"
    by (simp add: call_oracle_def)
  have ea: "strip_chars quote_chars (str_strip ?a) = ''Silent''"
    by code_simp
  have eb: "strip_chars quote_chars (str_strip ?b) = ''Yes, it does.''"
    by code_simp
  have ca: "equal_ignoring_case ''Silent'' ''SILENT''"
    by code_simp
  have cb: "\<not> equal_ignoring_case ''Yes, it does.'' ''SILENT''
            \<and> \<not> equal_ignoring_case ''Yes, it does.'' ''SILENCE''"
    by code_simp
  from direct_question_always_answered [OF q oa] obtain u r where
    "trimmed_of isspace ?a u \<and> trimmed_of is_quote u r"
    and "fst (generate_natural_response (\<lambda>n req. Inr ?a) ?p [] []) =
               (if r = [] \<or> equal_ignoring_case r ''SILENT'' \<or> equal_ignoring_case r ''SILENCE''
                then ''That's a good question. Could you elaborate a bit more?'' else r)"
    by (elim exE conjE) (rule that, rule conjI)
  with ea ca have a: "fst (generate_natural_response (\<lambda>n req. Inr ?a) ?p [] [])
       = ''That's a good question. Could you elaborate a bit more?''"
    unfolding trimmed_space trimmed_quotes by simp
  from direct_question_always_answered [OF q ob] obtain u r where
    "trimmed_of isspace ?b u \<and> trimmed_of is_quote u r"
    and "fst (generate_natural_response (\<lambda>n req. Inr ?b) ?p [] []) =
               (if r = [] \<or> equal_ignoring_case r ''SILENT'' \<or> equal_ignoring_case r ''SILENCE''
                then ''That's a good question. Could you elaborate a bit more?'' else r)"
    by (elim exE conjE) (rule that, rule conjI)
  with eb cb have b: "fst (generate_natural_response (\<lambda>n req. Inr ?b) ?p [] []) = ''Yes, it does.''"
    unfolding trimmed_space trimmed_quotes by simp
  from q a b show ?thesis
    by blast
qed

text \<open>
  Claim C4. When the utterance is not a question and the oracle replies, let \<open>r\<close> be
  the reply trimmed of blanks and then of quotation marks, and \<open>v\<close> be \<open>r\<close> trimmed of
  blanks again. The decision is silent if \<open>r\<close> equals SILENT, SILENCE or NO RESPONSE
  ignoring case, silent if \<open>r\<close> is empty or \<open>v\<close> is shorter than two characters, and
  otherwise \<open>r\<close> is spoken; the decision is silent in these cases only.
\<close>

theorem statement_follows_oracle:
  assumes "\<not> is_question presenter_text"
    and "fst (call_oracle orc (response_request presenter_text history) calls) = Inr reply"
  shows "\<exists>u r v. trimmed_of isspace reply u \<and> trimmed_of is_quote u r \<and> trimmed_of isspace r v
           \<and> (\<forall>u' r' v'. trimmed_of isspace reply u' \<and> trimmed_of is_quote u' r'
                  \<and> trimmed_of isspace r' v' \<longrightarrow> r' = r \<and> v' = v)
           \<and> fst (generate_natural_response orc presenter_text history calls) =
               (if equal_ignoring_case r ''SILENT'' \<or> equal_ignoring_case r ''SILENCE''
                   \<or> equal_ignoring_case r ''NO RESPONSE'' then []
                else if r = [] \<or> length v < 2 then []
                else r)
           \<and> (fst (generate_natural_response orc presenter_text history calls) = [] \<longleftrightarrow>
                equal_ignoring_case r ''SILENT'' \<or> equal_ignoring_case r ''SILENCE''
                  \<or> equal_ignoring_case r ''NO RESPONSE'' \<or> r = [] \<or> length v < 2)"
proof -
  let ?u = "str_strip reply"
  let ?r = "strip_chars quote_chars (str_strip reply)"
  let ?v = "str_strip ?r"
  have t: "trimmed_of isspace reply ?u \<and> trimmed_of is_quote ?u ?r \<and> trimmed_of isspace ?r ?v"
    unfolding trimmed_space trimmed_quotes by simp
  have q: "\<forall>u' r' v'. trimmed_of isspace reply u' \<and> trimmed_of is_quote u' r'
                  \<and> trimmed_of isspace r' v' \<longrightarrow> r' = ?r \<and> v' = ?v"
    unfolding trimmed_space trimmed_quotes by blast
  have g: "fst (generate_natural_response orc presenter_text history calls) =
               (if equal_ignoring_case ?r ''SILENT'' \<or> equal_ignoring_case ?r ''SILENCE''
                   \<or> equal_ignoring_case ?r ''NO RESPONSE'' then []
                else if ?r = [] \<or> length ?v < 2 then []
                else ?r)"
    using assms(1) natural_response_reply [OF assms(2)]
    by (simp add: decide_response_def Let_def upper_is_silent upper_is_silence upper_is_no_response)
  then have e: "fst (generate_natural_response orc presenter_text history calls) = [] \<longleftrightarrow>
                equal_ignoring_case ?r ''SILENT'' \<or> equal_ignoring_case ?r ''SILENCE''
                  \<or> equal_ignoring_case ?r ''NO RESPONSE'' \<or> ?r = [] \<or> length ?v < 2"
    by auto
  from t q g e show ?thesis
    by blast
qed

theorem statement_follows_oracle_witness:
  "\<not> is_question ''So our platform reduces onboarding time significantly.''
   \<and> fst (generate_natural_response (\<lambda>n req. Inr (CHR 0x85 # ''Silent'' @ [CHR 0x85]))
            ''So our platform reduces onboarding time significantly.'' [] []) = []
   \<and> fst (generate_natural_response (\<lambda>n req. Inr ''\"no response\"'')
            ''So our platform reduces onboarding time significantly.'' [] []) = []
   \<and> fst (generate_natural_response (\<lambda>n req. Inr '' 'How much does it save?' '')
            ''So our platform reduces onboarding time significantly.'' [] [])
       = ''How much does it save?''"
proof -
  let ?p = "''So our platform reduces onboarding time significantly.''"
  let ?a = "CHR 0x85 # ''Silent'' @ [CHR 0x85]"
  let ?b = "''\"no response\"''"
  let ?c = "'' 'How much does it save?' ''"
  have q: "\<not> is_question ?p"
    by code_simp
  have oa: "fst (call_oracle (\<lambda>n req. Inr ?a) (response_request ?p []) []) = Inr ?a"
    by (simp add: call_oracle_def)
  have ob: "fst (call_oracle (\<lambda>n req. Inr ?b) (response_request ?p []) []) = Inr ?b"
    by (simp add: call_oracle_def)
  have oc: "fst (call_oracle (\<lambda>n req. Inr ?c) (response_request ?p []) []) = Inr ?c"
    by (simp add: call_oracle_def)
  have ea: "equal_ignoring_case (strip_chars quote_chars (str_strip ?a)) ''SILENT''"
    by code_simp
  have eb: "equal_ignoring_case (strip_chars quote_chars (str_strip ?b)) ''NO RESPONSE''"
    by code_simp
  have ec: "strip_chars quote_chars (str_strip ?c) = ''How much does it save?''"
    by code_simp
  have nc: "\<not> equal_ignoring_case ''How much does it save?'' ''SILENT''
            \<and> \<not> equal_ignoring_case ''How much does it save?'' ''SILENCE''
            \<and> \<not> equal_ignoring_case ''How much does it save?'' ''NO RESPONSE''
            \<and> \<not> length (str_strip ''How much does it save?'') < 2"
    by code_simp
  from statement_follows_oracle [OF q oa] obtain u r v where
    "trimmed_of isspace ?a u \<and> trimmed_of is_quote u r" and "trimmed_of isspace r v"
    and "fst (generate_natural_response (\<lambda>n req. Inr ?a) ?p [] []) = [] \<longleftrightarrow>
                equal_ignoring_case r ''SILENT'' \<or> equal_ignoring_case r ''SILENCE''
                  \<or> equal_ignoring_case r ''NO RESPONSE'' \<or> r = [] \<or> length v < 2"
    by (elim exE conjE) (rule that, rule conjI)
  with ea have a: "fst (generate_natural_response (\<lambda>n req. Inr ?a) ?p [] []) = []"
    unfolding trimmed_space trimmed_quotes by blast
  from statement_follows_oracle [OF q ob] obtain u r v where
    "trimmed_of isspace ?b u \<and> trimmed_of is_quote u r" and "trimmed_of isspace r v"
    and "fst (generate_natural_response (\<lambda>n req. Inr ?b) ?p [] []) = [] \<longleftrightarrow>
                equal_ignoring_case r ''SILENT'' \<or> equal_ignoring_case r ''SILENCE''
                  \<or> equal_ignoring_case r ''NO RESPONSE'' \<or> r = [] \<or> length v < 2"
    by (elim exE conjE) (rule that, rule conjI)
  with eb have b: "fst (generate_natural_response (\<lambda>n req. Inr ?b) ?p [] []) = []"
    unfolding trimmed_space trimmed_quotes by blast
  from statement_follows_oracle [OF q oc] obtain u r v where
    "trimmed_of isspace ?c u \<and> trimmed_of is_quote u r" and "trimmed_of isspace r v"
    and "fst (generate_natural_response (\<lambda>n req. Inr ?c) ?p [] []) =
               (if equal_ignoring_case r ''SILENT'' \<or> equal_ignoring_case r ''SILENCE''
                   \<or> equal_ignoring_case r ''NO RESPONSE'' then []
                else if r = [] \<or> length v < 2 then []
                else r)"
    by (elim exE conjE) (rule that, rule conjI)
  with ec nc have c: "fst (generate_natural_response (\<lambda>n req. Inr ?c) ?p [] [])
       = ''How much does it save?''"
    unfolding trimmed_space trimmed_quotes by simp
  from q a b c show ?thesis
    by blast
qed

section \<open>The classifier against the specification\<close>

lemma trimmed_sublist: "trimmed_of P s t \<Longrightarrow> t \<in> set (sublists s)"
  unfolding trimmed_of_iff by auto

lemma sentence_sublist: "is_sentence_of u x \<Longrightarrow> x \<in> set (sublists u)"
  unfolding is_sentence_of_def by auto

lemma spec_question_marks:
  "(\<exists>t\<in>set (sublists u). trimmed_of isspace u t \<and> 1 \<le> trailing_question_marks t)
     \<longleftrightarrow> 1 \<le> trailing_question_marks (str_strip u)"
proof
  assume "\<exists>t\<in>set (sublists u). trimmed_of isspace u t \<and> 1 \<le> trailing_question_marks t"
  then show "1 \<le> trailing_question_marks (str_strip u)"
    unfolding trimmed_space by blast
next
  assume a: "1 \<le> trailing_question_marks (str_strip u)"
  have t: "trimmed_of isspace u (str_strip u)"
    unfolding trimmed_space ..
  then have "str_strip u \<in> set (sublists u)"
    by (rule trimmed_sublist)
  with t a show "\<exists>t\<in>set (sublists u). trimmed_of isspace u t \<and> 1 \<le> trailing_question_marks t"
    by blast
qed

lemma spec_sentence_phrase:
  "(\<exists>sentence\<in>set (sublists u). is_sentence_of u sentence
      \<and> (\<exists>t\<in>set (sublists sentence). trimmed_of isspace sentence t \<and> t \<noteq> []
           \<and> (\<exists>phrase\<in>set spec_phrases. prefix phrase (lowercase (take 20 t)))))
   \<longleftrightarrow> (\<exists>x\<in>set (split_on (CHR ''.'') u). str_strip x \<noteq> []
           \<and> (\<exists>phrase\<in>set spec_phrases. prefix phrase (take 20 (str_lower (str_strip x)))))"
proof
  assume "\<exists>sentence\<in>set (sublists u). is_sentence_of u sentence
      \<and> (\<exists>t\<in>set (sublists sentence). trimmed_of isspace sentence t \<and> t \<noteq> []
           \<and> (\<exists>phrase\<in>set spec_phrases. prefix phrase (lowercase (take 20 t))))"
  then obtain x t phrase where "is_sentence_of u x" and "trimmed_of isspace x t" and "t \<noteq> []"
    and "phrase \<in> set spec_phrases" and "prefix phrase (lowercase (take 20 t))"
    by blast
  then have "x \<in> set (split_on (CHR ''.'') u)" and "str_strip x \<noteq> []"
    and "phrase \<in> set spec_phrases" and "prefix phrase (take 20 (str_lower (str_strip x)))"
    by (simp_all add: in_split_on_iff trimmed_space phrase_prefix_lowercase)
  then show "\<exists>x\<in>set (split_on (CHR ''.'') u). str_strip x \<noteq> []
           \<and> (\<exists>phrase\<in>set spec_phrases. prefix phrase (take 20 (str_lower (str_strip x))))"
    by blast
next
  assume "\<exists>x\<in>set (split_on (CHR ''.'') u). str_strip x \<noteq> []
           \<and> (\<exists>phrase\<in>set spec_phrases. prefix phrase (take 20 (str_lower (str_strip x))))"
  then obtain x phrase where x: "x \<in> set (split_on (CHR ''.'') u)" and n: "str_strip x \<noteq> []"
    and p: "phrase \<in> set spec_phrases" and l: "prefix phrase (take 20 (str_lower (str_strip x)))"
    by blast
  from x have s: "is_sentence_of u x"
    by (simp add: in_split_on_iff)
  then have su: "x \<in> set (sublists u)"
    by (rule sentence_sublist)
  have t: "trimmed_of isspace x (str_strip x)"
    unfolding trimmed_space ..
  then have st: "str_strip x \<in> set (sublists x)"
    by (rule trimmed_sublist)
  from p l have "prefix phrase (lowercase (take 20 (str_strip x)))"
    by (simp add: phrase_prefix_lowercase)
  with s su t st n p show "\<exists>sentence\<in>set (sublists u). is_sentence_of u sentence
      \<and> (\<exists>t\<in>set (sublists sentence). trimmed_of isspace sentence t \<and> t \<noteq> []
           \<and> (\<exists>phrase\<in>set spec_phrases. prefix phrase (lowercase (take 20 t))))"
    by blast
qed

lemma source_question_marks:
  "(endswith (str_strip u) ''?'' \<or> endswith (str_strip u) ''??'')
     \<longleftrightarrow> 1 \<le> trailing_question_marks (str_strip u)"
  unfolding trailing_question_marks_pos
  using endswith_double [of "str_strip u" "CHR ''?''"] endswith_single [of "str_strip u" "CHR ''?''"]
  by blast

lemma source_sentence_phrase:
  "list_ex (\<lambda>start. list_ex (\<lambda>q. startswith start q) question_phrases) (sentence_starts u)
     \<longleftrightarrow> (\<exists>x\<in>set (split_on (CHR ''.'') u). str_strip x \<noteq> []
           \<and> (\<exists>phrase\<in>set spec_phrases. prefix phrase (take 20 (str_lower (str_strip x)))))"
proof -
  have "question_phrases = spec_phrases"
    by (simp add: question_phrases_def spec_phrases_def)
  then show ?thesis
    by (simp add: sentence_starts_def list_ex_iff startswith_prefix) blast
qed

lemma is_question_classify_spec: "is_question utterance = classify_spec utterance"
  unfolding is_question_def classify_spec_def source_question_marks source_sentence_phrase
    spec_question_marks spec_sentence_phrase ..

lemma blank_never_question:
  assumes "\<forall>c\<in>set utterance. isspace c"
  shows "\<not> is_question utterance"
  using assms blank_not_question [of utterance] by (simp add: str_strip_Nil_iff)

text \<open>
  Claim C3. The classifier of the program and the classifier of the specification agree
  on every utterance. Hence an utterance that is empty or blank is never a question, and
  an utterance that ends with one or more question marks, blanks after them or not, is
  one. Having at least one trailing question mark is ending with one or more of them.
\<close>

theorem classifier_matches_specification:
  "is_question utterance = classify_spec utterance
   \<and> ((\<forall>c\<in>set utterance. isspace c) \<longrightarrow> \<not> is_question utterance)
   \<and> (0 < n \<and> (\<forall>c\<in>set trailing. isspace c)
        \<longrightarrow> is_question (body @ replicate n (CHR ''?'') @ trailing))
   \<and> (1 \<le> trailing_question_marks t
        \<longleftrightarrow> (\<exists>p k. 0 < k \<and> t = p @ replicate k (CHR ''?'')))"
  using is_question_classify_spec [of utterance] blank_never_question [of utterance]
    question_marks_are_question [of n trailing body]
    trailing_question_marks_iff [of t]
  by blast

theorem classifier_matches_specification_witness:
  "is_question ''We cut costs. ANY Questions so far''
   \<and> classify_spec ''We cut costs. ANY Questions so far''
   \<and> \<not> classify_spec ''We cut costs. So far so good''
   \<and> \<not> is_question [CHR 0xA0, CHR '' '', CHR 0x85]
   \<and> is_question (''Is it good??'' @ [CHR 0xA0])"
proof -
  let ?a = "''We cut costs. ANY Questions so far''"
  let ?b = "''We cut costs. So far so good''"
  let ?c = "[CHR 0xA0, CHR '' '', CHR 0x85]"
  have a: "is_question ?a"
    by code_simp
  have b: "\<not> is_question ?b"
    by code_simp
  have c: "\<forall>c\<in>set ?c. isspace c"
    by (simp add: isspace_def)
  have d: "0 < (2::nat) \<and> (\<forall>c\<in>set [CHR 0xA0]. isspace c)"
    by (simp add: isspace_def)
  have e: "''Is it good'' @ replicate 2 (CHR ''?'') @ [CHR 0xA0] = ''Is it good??'' @ [CHR 0xA0]"
    by (simp add: numeral_2_eq_2)
  from classifier_matches_specification [of ?a] a have sa: "classify_spec ?a"
    by blast
  from classifier_matches_specification [of ?b] b have sb: "\<not> classify_spec ?b"
    by blast
  from classifier_matches_specification [of ?c] c have nc: "\<not> is_question ?c"
    by blast
  from classifier_matches_specification [of ?a 2 "[CHR 0xA0]" "''Is it good''"] d
  have "is_question (''Is it good'' @ replicate 2 (CHR ''?'') @ [CHR 0xA0])"
    by blast
  then have q: "is_question (''Is it good??'' @ [CHR 0xA0])"
    unfolding e .
  from a sa sb nc q show ?thesis
    by blast
qed

section \<open>The gates of a pause and what is sent\<close>

lemma generate_natural_response_calls:
  "snd (generate_natural_response orc presenter_text history calls)
     = calls @ [response_request presenter_text history]"
  by (simp add: generate_natural_response_def natural_response_body_def call_oracle_def
      split: sum.splits)

lemma on_pause_calls:
  assumes "\<not> too_short (recent_text_of recent)" and "greeting_sent s"
  shows "oracle_calls (snd (on_pause orc recent s))
           = oracle_calls s @ [response_request (recent_text_of recent) (conversation_history s)]"
proof -
  obtain response calls' where g:
    "generate_natural_response orc (recent_text_of recent) (conversation_history s) (oracle_calls s)
       = (response, calls')"
    by (cases "generate_natural_response orc (recent_text_of recent) (conversation_history s) (oracle_calls s)")
  with generate_natural_response_calls
    [of orc "recent_text_of recent" "conversation_history s" "oracle_calls s"]
  have "calls' = oracle_calls s @ [response_request (recent_text_of recent) (conversation_history s)]"
    by simp
  with assms g show ?thesis
    by (simp add: on_pause_def Let_def)
qed

text \<open>
  Claim C2. Whatever the oracle replies, every message that the handling of a pause
  sends is an \<open>avatar_speak\<close> whose text is not empty, not all blank and at least three
  characters long.
\<close>

theorem avatar_speak_on_pause_is_substantial:
  assumes "handle_message env orc (PauseDetected recent) s = (ctl, s')"
  shows "\<exists>new. sent s' = sent s @ new
           \<and> (\<forall>m\<in>set new. \<exists>t. m = AvatarSpeak t
                  \<and> t \<noteq> [] \<and> (\<exists>c\<in>set t. \<not> isspace c) \<and> 3 \<le> length t)"
proof -
  from assms have "s' = snd (on_pause orc recent s)"
    by simp
  with on_pause_sent [of orc recent s] obtain new where
    n: "sent s' = sent s @ new" and a: "\<forall>m\<in>set new. \<exists>t. m = AvatarSpeak t \<and> worth_saying t"
    by blast
  have "worth_saying t \<Longrightarrow> t \<noteq> [] \<and> (\<exists>c\<in>set t. \<not> isspace c) \<and> 3 \<le> length t" for t
    using str_strip_Nil_iff [of t] by (auto simp: worth_saying_def)
  with a have "\<forall>m\<in>set new. \<exists>t. m = AvatarSpeak t
                  \<and> t \<noteq> [] \<and> (\<exists>c\<in>set t. \<not> isspace c) \<and> 3 \<le> length t"
    by blast
  with n show ?thesis by blast
qed

theorem avatar_speak_on_pause_is_substantial_witness:
  "sent (snd (handle_message \<lparr> json_loads = (\<lambda>j. None), float_of_str = (\<lambda>f. None), system_prompt = [] \<rparr>
            (\<lambda>n req. Inr ''We have three tiers.'')
            (PauseDetected (Some ''So what do you think about it?''))
            (initial_session\<lparr> greeting_sent := True \<rparr>)))
     = [AvatarSpeak ''We have three tiers.'']
   \<and> (\<exists>new. [AvatarSpeak ''We have three tiers.''] = [] @ new
           \<and> (\<forall>m\<in>set new. \<exists>t. m = AvatarSpeak t
                  \<and> t \<noteq> [] \<and> (\<exists>c\<in>set t. \<not> isspace c) \<and> 3 \<le> length t))
   \<and> sent (snd (handle_message \<lparr> json_loads = (\<lambda>j. None), float_of_str = (\<lambda>f. None), system_prompt = [] \<rparr>
            (\<lambda>n req. Inr (''\"'' @ [CHR 0xA0, CHR 0xA0, CHR 0xA0] @ ''\"''))
            (PauseDetected (Some ''So what do you think about it?''))
            (initial_session\<lparr> greeting_sent := True \<rparr>))) = []
   \<and> sent (snd (handle_message \<lparr> json_loads = (\<lambda>j. None), float_of_str = (\<lambda>f. None), system_prompt = [] \<rparr>
            (\<lambda>n req. Inr ''No'')
            (PauseDetected (Some ''So what do you think about it?''))
            (initial_session\<lparr> greeting_sent := True \<rparr>))) = []"
proof -
  let ?env = "\<lparr> json_loads = (\<lambda>j. None), float_of_str = (\<lambda>f. None), system_prompt = [] \<rparr>"
  let ?orc = "\<lambda>(n::nat) (req::oracle_request). (Inr ''We have three tiers.'' :: error + string)"
  let ?m = "PauseDetected (Some ''So what do you think about it?'')"
  let ?s = "initial_session\<lparr> greeting_sent := True \<rparr>"
  have e: "sent (snd (handle_message ?env ?orc ?m ?s)) = [AvatarSpeak ''We have three tiers.'']"
    by code_simp
  have b: "sent (snd (handle_message ?env
            (\<lambda>n req. Inr (''\"'' @ [CHR 0xA0, CHR 0xA0, CHR 0xA0] @ ''\"'')) ?m ?s)) = []"
    by code_simp
  have c: "sent (snd (handle_message ?env (\<lambda>n req. Inr ''No'') ?m ?s)) = []"
    by code_simp
  have i: "sent ?s = []"
    by (simp add: initial_session_def)
  have "handle_message ?env ?orc ?m ?s =
          (fst (handle_message ?env ?orc ?m ?s), snd (handle_message ?env ?orc ?m ?s))"
    by simp
  from avatar_speak_on_pause_is_substantial [OF this]
  have "\<exists>new. sent (snd (handle_message ?env ?orc ?m ?s)) = sent ?s @ new
           \<and> (\<forall>m\<in>set new. \<exists>t. m = AvatarSpeak t
                  \<and> t \<noteq> [] \<and> (\<exists>c\<in>set t. \<not> isspace c) \<and> 3 \<le> length t)" .
  then have "\<exists>new. [AvatarSpeak ''We have three tiers.''] = [] @ new
           \<and> (\<forall>m\<in>set new. \<exists>t. m = AvatarSpeak t
                  \<and> t \<noteq> [] \<and> (\<exists>c\<in>set t. \<not> isspace c) \<and> 3 \<le> length t)"
    unfolding e i .
  with e b c show ?thesis
    by blast
qed

text \<open>
  Claim C5. A pause whose recent text is missing, blank, or of fewer than five words is
  too short for the handler: the loop goes on, no request is made to the oracle and
  nothing is sent. The gate is exact: once the greeting is sent, a pause that is not too
  short makes one request to the oracle.
\<close>

theorem short_pause_never_reaches_oracle:
  assumes "pause_too_short recent"
  shows "too_short (recent_text_of recent)
       \<and> fst (handle_message env orc (PauseDetected recent) s) = Continue
       \<and> oracle_calls (snd (handle_message env orc (PauseDetected recent) s)) = oracle_calls s
       \<and> sent (snd (handle_message env orc (PauseDetected recent) s)) = sent s
       \<and> (\<not> pause_too_short other \<and> greeting_sent s \<longrightarrow>
            oracle_calls (snd (handle_message env orc (PauseDetected other) s))
              = oracle_calls s @ [response_request (recent_text_of other) (conversation_history s)])"
proof (intro conjI impI)
  from assms show t: "too_short (recent_text_of recent)"
    by (simp add: too_short_iff)
  then have r: "on_pause orc recent s = (Continue, s)"
    by (simp add: on_pause_rejected)
  then show "fst (handle_message env orc (PauseDetected recent) s) = Continue"
    by simp
  from r show "oracle_calls (snd (handle_message env orc (PauseDetected recent) s)) = oracle_calls s"
    by simp
  from r show "sent (snd (handle_message env orc (PauseDetected recent) s)) = sent s"
    by simp
next
  assume "\<not> pause_too_short other \<and> greeting_sent s"
  then have "\<not> too_short (recent_text_of other)" and "greeting_sent s"
    by (simp_all add: too_short_iff)
  then show "oracle_calls (snd (handle_message env orc (PauseDetected other) s))
              = oracle_calls s @ [response_request (recent_text_of other) (conversation_history s)]"
    by (simp add: on_pause_calls)
qed

theorem short_pause_never_reaches_oracle_witness:
  "pause_too_short (Some ''Yes.'')
   \<and> pause_too_short (Some (''a b c d '' @ [CHR 0xA0]))
   \<and> oracle_calls (snd (handle_message
        \<lparr> json_loads = (\<lambda>j. None), float_of_str = (\<lambda>f. None), system_prompt = [] \<rparr>
        (\<lambda>n req. Inr ''Tell me more.'') (PauseDetected (Some (''a b c d '' @ [CHR 0xA0])))
        (initial_session\<lparr> greeting_sent := True \<rparr>))) = []
   \<and> sent (snd (handle_message
        \<lparr> json_loads = (\<lambda>j. None), float_of_str = (\<lambda>f. None), system_prompt = [] \<rparr>
        (\<lambda>n req. Inr ''Tell me more.'') (PauseDetected (Some (''a b c d '' @ [CHR 0xA0])))
        (initial_session\<lparr> greeting_sent := True \<rparr>))) = []
   \<and> length (oracle_calls (snd (handle_message
        \<lparr> json_loads = (\<lambda>j. None), float_of_str = (\<lambda>f. None), system_prompt = [] \<rparr>
        (\<lambda>n req. Inr ''Tell me more.'')
        (PauseDetected (Some [CHR ''a'', CHR 0xA0, CHR ''b'', CHR 0xA0, CHR ''c'', CHR 0xA0,
                              CHR ''d'', CHR 0xA0, CHR ''e'']))
        (initial_session\<lparr> greeting_sent := True \<rparr>)))) = 1"
proof -
  let ?env = "\<lparr> json_loads = (\<lambda>j. None), float_of_str = (\<lambda>f. None), system_prompt = [] \<rparr>"
  let ?orc = "\<lambda>(n::nat) (req::oracle_request). (Inr ''Tell me more.'' :: error + string)"
  let ?s = "initial_session\<lparr> greeting_sent := True \<rparr>"
  let ?four = "Some (''a b c d '' @ [CHR 0xA0])"
  let ?five = "Some [CHR ''a'', CHR 0xA0, CHR ''b'', CHR 0xA0, CHR ''c'', CHR 0xA0,
                              CHR ''d'', CHR 0xA0, CHR ''e'']"
  have y: "pause_too_short (Some ''Yes.'')"
    by code_simp
  have f: "pause_too_short ?four"
    by code_simp
  have n: "\<not> pause_too_short ?five \<and> greeting_sent ?s"
    by code_simp
  have i: "oracle_calls ?s = [] \<and> sent ?s = []"
    by (simp add: initial_session_def)
  note w = short_pause_never_reaches_oracle [OF f, of ?env ?orc ?s ?five]
  from w i have a: "oracle_calls (snd (handle_message ?env ?orc (PauseDetected ?four) ?s)) = []"
    and b: "sent (snd (handle_message ?env ?orc (PauseDetected ?four) ?s)) = []"
    by simp_all
  from w n have "oracle_calls (snd (handle_message ?env ?orc (PauseDetected ?five) ?s))
              = oracle_calls ?s @ [response_request (recent_text_of ?five) (conversation_history ?s)]"
    by blast
  then have c: "length (oracle_calls (snd (handle_message ?env ?orc (PauseDetected ?five) ?s))) = 1"
    using i by simp
  from y f a b c show ?thesis
    by blast
qed

text \<open>
  Claim C10. A pause that is too short, or that arrives before the greeting, leaves the
  whole session as it was: no request to the oracle, no message, no entry in the history,
  so the transcript is the same and the rest of the session runs as if the pause had not
  arrived. For a pause that is too short this holds wherever it stands among the messages.
\<close>

theorem rejected_pause_leaves_session_unchanged:
  assumes "pause_too_short recent \<or> \<not> greeting_sent s"
  shows "handle_message env orc (PauseDetected recent) s = (Continue, s)
       \<and> full_transcript (conversation_history (snd (handle_message env orc (PauseDetected recent) s)))
           = full_transcript (conversation_history s)
       \<and> run env orc (PauseDetected recent # ms) s = run env orc ms s
       \<and> (pause_too_short recent \<longrightarrow>
            run env orc (before @ PauseDetected recent # ms) s0 = run env orc (before @ ms) s0)"
proof (intro conjI impI)
  from assms have g: "too_short (recent_text_of recent) \<or> \<not> greeting_sent s"
    by (simp add: too_short_iff)
  show "handle_message env orc (PauseDetected recent) s = (Continue, s)"
    using on_pause_rejected [OF g] by simp
  then show "full_transcript (conversation_history (snd (handle_message env orc (PauseDetected recent) s)))
           = full_transcript (conversation_history s)"
    by simp
  show "run env orc (PauseDetected recent # ms) s = run env orc ms s"
    using on_pause_rejected [OF g] by simp
next
  assume "pause_too_short recent"
  then have t: "too_short (recent_text_of recent)"
    by (simp add: too_short_iff)
  have "run env orc (PauseDetected recent # ms) s1 = run env orc ms s1" for s1
    using on_pause_rejected [of recent s1 orc] t by simp
  then show "run env orc (before @ PauseDetected recent # ms) s0 = run env orc (before @ ms) s0"
    by (simp add: run_append [of env orc before] split: prod.splits control.splits)
qed

theorem rejected_pause_leaves_session_unchanged_witness:
  "\<not> greeting_sent initial_session
   \<and> handle_message \<lparr> json_loads = (\<lambda>j. None), float_of_str = (\<lambda>f. None), system_prompt = [] \<rparr>
        (\<lambda>n req. Inr ''Tell me more.'')
        (PauseDetected (Some ''So what do you think about it?'')) initial_session
     = (Continue, initial_session)
   \<and> pause_too_short (Some ([CHR 0x85] @ ''What do you think?'' @ [CHR 0xA0]))
   \<and> handle_message \<lparr> json_loads = (\<lambda>j. None), float_of_str = (\<lambda>f. None), system_prompt = [] \<rparr>
        (\<lambda>n req. Inr ''Tell me more.'')
        (PauseDetected (Some ([CHR 0x85] @ ''What do you think?'' @ [CHR 0xA0])))
        (initial_session\<lparr> greeting_sent := True \<rparr>)
     = (Continue, initial_session\<lparr> greeting_sent := True \<rparr>)"
proof -
  let ?env = "\<lparr> json_loads = (\<lambda>j. None), float_of_str = (\<lambda>f. None), system_prompt = [] \<rparr>"
  let ?orc = "\<lambda>(n::nat) (req::oracle_request). (Inr ''Tell me more.'' :: error + string)"
  let ?short = "Some ([CHR 0x85] @ ''What do you think?'' @ [CHR 0xA0])"
  have g: "\<not> greeting_sent initial_session"
    by (simp add: initial_session_def)
  then have "pause_too_short (Some ''So what do you think about it?'')
             \<or> \<not> greeting_sent initial_session"
    by (rule disjI2)
  from rejected_pause_leaves_session_unchanged [OF this, of ?env ?orc]
  have a: "handle_message ?env ?orc (PauseDetected (Some ''So what do you think about it?''))
             initial_session = (Continue, initial_session)"
    by blast
  have p: "pause_too_short ?short"
    by code_simp
  then have "pause_too_short ?short \<or> \<not> greeting_sent (initial_session\<lparr> greeting_sent := True \<rparr>)"
    by (rule disjI1)
  from rejected_pause_leaves_session_unchanged [OF this, of ?env ?orc]
  have b: "handle_message ?env ?orc (PauseDetected ?short) (initial_session\<lparr> greeting_sent := True \<rparr>)
             = (Continue, initial_session\<lparr> greeting_sent := True \<rparr>)"
    by blast
  from g a p b show ?thesis
    by blast
qed

end
